theory Spec2Isabelle
  imports Complex_Main "HOL-Library.AList" "HOL-Library.Word"
begin

section \<open>Python values held by the task store\<close>

text \<open>
  \<^verbatim>\<open>TaskManager.data\<close> is whatever \<^verbatim>\<open>json.load\<close> returned, or the dict literal of the
  default state, so the store is modelled on JSON-shaped Python values. A string is the
  list of its code points, which may be surrogates (\<^verbatim>\<open>json.load\<close> reads \<^verbatim>\<open>"\ud800"\<close> as the
  string of that one code point); \<open>py\<close> gives the string of an ASCII literal. A dict
  is an association list in insertion order (keys are the strings of JSON objects, each
  bound once); a float is kept as its 64 bits.
\<close>

type_synonym pystr = "nat list"

definition py :: "string \<Rightarrow> pystr" where
  "py s = map of_char s"

datatype pyval =
    PNone
  | PBool bool
  | PInt int
  | PFloat "64 word"
  | PStr pystr
  | PList "pyval list"
  | PDict "(pystr \<times> pyval) list"

datatype py_error =
  AttributeError | TypeError | KeyError | IndexError | OSError | UnicodeEncodeError

text \<open>Truth value of an object, as \<^verbatim>\<open>not x\<close> and \<^verbatim>\<open>if x\<close> test it (both float zeros are false).\<close>

fun truthy :: "pyval \<Rightarrow> bool" where
  "truthy PNone = False"
| "truthy (PBool b) = b"
| "truthy (PInt i) = (i \<noteq> 0)"
| "truthy (PFloat w) = (push_bit 1 w \<noteq> 0)"
| "truthy (PStr s) = (s \<noteq> [])"
| "truthy (PList xs) = (xs \<noteq> [])"
| "truthy (PDict kvs) = (kvs \<noteq> [])"

text \<open>\<^verbatim>\<open>x.get(k, dflt)\<close>: only a dict has the method.\<close>

fun dict_get :: "pyval \<Rightarrow> pystr \<Rightarrow> pyval \<Rightarrow> py_error + pyval" where
  "dict_get (PDict kvs) k dflt = Inr (case map_of kvs k of None \<Rightarrow> dflt | Some v \<Rightarrow> v)"
| "dict_get _ k dflt = Inl AttributeError"

text \<open>\<^verbatim>\<open>x[k]\<close> with a string key: a missing key of a dict is a KeyError, every other
  object rejects the subscript.\<close>

fun getitem_str :: "pyval \<Rightarrow> pystr \<Rightarrow> py_error + pyval" where
  "getitem_str (PDict kvs) k = (case map_of kvs k of None \<Rightarrow> Inl KeyError | Some v \<Rightarrow> Inr v)"
| "getitem_str _ k = Inl TypeError"

text \<open>\<^verbatim>\<open>x[k] = v\<close> with a string key: a dict overwrites the binding where it stands or
  appends a new one.\<close>

fun setitem_str :: "pyval \<Rightarrow> pystr \<Rightarrow> pyval \<Rightarrow> py_error + pyval" where
  "setitem_str (PDict kvs) k v = Inr (PDict (AList.update k v kvs))"
| "setitem_str _ k v = Inl TypeError"

text \<open>The objects a \<^verbatim>\<open>for\<close> loop visits: the elements of a list, the keys of a dict,
  the one-character strings of a string.\<close>

fun py_iter :: "pyval \<Rightarrow> py_error + pyval list" where
  "py_iter (PList xs) = Inr xs"
| "py_iter (PDict kvs) = Inr (map (\<lambda>kv. PStr (fst kv)) kvs)"
| "py_iter (PStr s) = Inr (map (\<lambda>c. PStr [c]) s)"
| "py_iter _ = Inl TypeError"

fun py_len :: "pyval \<Rightarrow> py_error + int" where
  "py_len (PList xs) = Inr (int (length xs))"
| "py_len (PDict kvs) = Inr (int (length kvs))"
| "py_len (PStr s) = Inr (int (length s))"
| "py_len _ = Inl TypeError"

text \<open>The position that an integer index names among \<open>n\<close> elements, if any: an index
  below zero counts back from the end.\<close>

definition list_index :: "int \<Rightarrow> nat \<Rightarrow> nat option" where
  "list_index i n =
     (if 0 \<le> i \<and> i < int n then Some (nat i)
      else if i < 0 \<and> - int n \<le> i then Some (nat (i + int n))
      else None)"

text \<open>\<^verbatim>\<open>x[i]\<close> with an integer: a dict of string keys has no integer key.\<close>

fun getitem_int :: "pyval \<Rightarrow> int \<Rightarrow> py_error + pyval" where
  "getitem_int (PList xs) i =
     (case list_index i (length xs) of None \<Rightarrow> Inl IndexError | Some j \<Rightarrow> Inr (xs ! j))"
| "getitem_int (PStr s) i =
     (case list_index i (length s) of None \<Rightarrow> Inl IndexError | Some j \<Rightarrow> Inr (PStr [s ! j]))"
| "getitem_int (PDict kvs) i = Inl KeyError"
| "getitem_int _ i = Inl TypeError"

text \<open>\<^verbatim>\<open>del x[i]\<close> with an integer index.\<close>

fun delitem_int :: "pyval \<Rightarrow> int \<Rightarrow> py_error + pyval" where
  "delitem_int (PList xs) i =
     (case list_index i (length xs) of
        None \<Rightarrow> Inl IndexError
      | Some j \<Rightarrow> Inr (PList (take j xs @ drop (Suc j) xs)))"
| "delitem_int (PDict kvs) i = Inl KeyError"
| "delitem_int _ i = Inl TypeError"

text \<open>\<^verbatim>\<open>x.append(v)\<close>: only a list has the method.\<close>

fun py_append :: "pyval \<Rightarrow> pyval \<Rightarrow> py_error + pyval" where
  "py_append (PList xs) v = Inr (PList (xs @ [v]))"
| "py_append _ v = Inl AttributeError"

text \<open>
  \<^verbatim>\<open>target = self.data[key]\<close> names the list object that the dict holds, and
  \<^verbatim>\<open>target[index]\<close> the task object that the list holds, so what a method does to them is
  seen through \<^verbatim>\<open>self.data\<close>. With values in place of objects, the changed task is put
  back at its position and the changed list under its key.
\<close>

fun put_back :: "pyval \<Rightarrow> pystr \<Rightarrow> pyval \<Rightarrow> pyval" where
  "put_back (PDict kvs) k v = PDict (AList.update k v kvs)"
| "put_back d k v = d"

fun put_back_at :: "pyval \<Rightarrow> int \<Rightarrow> pyval \<Rightarrow> pyval" where
  "put_back_at (PList xs) i v =
     (case list_index i (length xs) of None \<Rightarrow> PList xs | Some j \<Rightarrow> PList (xs[j := v]))"
| "put_back_at x i v = x"

section \<open>TaskManager\<close>

text \<open>
  The backing file (\<^verbatim>\<open>tasks.json\<close>) is missing, or cannot be read or parsed, or holds a
  JSON document, which is identified with the value \<^verbatim>\<open>json.load\<close> reads from it and
  \<^verbatim>\<open>json.dump\<close> writes to it. \<open>writable\<close> says that \<^verbatim>\<open>open(filename, 'w')\<close> succeeds (it
  fails on a directory and on a path that may not be written); \<open>writes\<close> counts the
  times the file was opened for writing, which empties it.
\<close>

datatype file_content = Missing | Unreadable | Doc pyval

record backing_file =
  content :: file_content
  writable :: bool
  writes :: nat

record task_manager =
  data :: pyval
  backing :: backing_file

text \<open>
  A method that raises leaves its object in the state it had reached: the result of a
  method is the state it returns with, or the exception and the state at the raise.
\<close>

type_synonym 'a raising = "(py_error \<times> 'a) + 'a"

fun state_after :: "'a raising \<Rightarrow> 'a" where
  "state_after (Inl (e, s)) = s"
| "state_after (Inr s) = s"

text \<open>
  The file is opened with \<^verbatim>\<open>encoding='utf-8'\<close> and written with \<^verbatim>\<open>ensure_ascii=False\<close>,
  so the strings go to the file as they are, and a surrogate code point cannot be
  encoded. \<open>encodable\<close> says that no string of a value, key or not, has one.
\<close>

definition str_encodable :: "pystr \<Rightarrow> bool" where
  "str_encodable s = list_all (\<lambda>c. c < 0xD800 \<or> 0xDFFF < c) s"

fun encodable :: "pyval \<Rightarrow> bool" where
  "encodable (PStr s) = str_encodable s"
| "encodable (PList xs) = list_all encodable xs"
| "encodable (PDict kvs) = list_all (\<lambda>kv. str_encodable (fst kv) \<and> encodable (snd kv)) kvs"
| "encodable _ = True"

definition empty_default :: pyval where
  "empty_default =
     PDict [(py ''last_date'', PStr []), (py ''daily'', PList []), (py ''todo'', PList [])]"

text \<open>Lines 18 to 25 of \<^verbatim>\<open>load\<close>: the value of \<^verbatim>\<open>self.data\<close> before the date is looked at.\<close>

fun read_data :: "file_content \<Rightarrow> pyval" where
  "read_data Missing = empty_default"
| "read_data Unreadable = empty_default"
| "read_data (Doc j) = j"

text \<open>
  \<^verbatim>\<open>save\<close>: when the file cannot be opened the exception leaves it as it was; once it is
  open it is empty, and \<^verbatim>\<open>json.dump\<close> either writes the whole document or raises at the
  first string that cannot be encoded, which leaves a document cut off before its end
  (no JSON document).
\<close>

definition save :: "task_manager \<Rightarrow> task_manager raising" where
  "save s =
     (if \<not> writable (backing s) then Inl (OSError, s)
      else if encodable (data s) then
        Inr (s\<lparr>backing := \<lparr>content = Doc (data s), writable = True,
                            writes = Suc (writes (backing s))\<rparr>\<rparr>)
      else
        Inl (UnicodeEncodeError,
             s\<lparr>backing := \<lparr>content = Unreadable, writable = True,
                             writes = Suc (writes (backing s))\<rparr>\<rparr>))"

text \<open>\<^verbatim>\<open>for task in items: task["done"] = False\<close>, stopping at the first exception.\<close>

fun reset_done :: "pyval list \<Rightarrow> py_error + pyval list" where
  "reset_done [] = Inr []"
| "reset_done (t # ts) =
     (case setitem_str t (py ''done'') (PBool False) of
        Inl e \<Rightarrow> Inl e
      | Inr t' \<Rightarrow> (case reset_done ts of Inl e \<Rightarrow> Inl e | Inr ts' \<Rightarrow> Inr (t' # ts')))"

text \<open>The loop over \<open>x\<close>, giving \<open>x\<close> as it is afterwards: the elements of a list are the
  task objects themselves; the keys of a dict and the characters of a string are
  temporaries (and reject the assignment).\<close>

definition reset_loop :: "pyval \<Rightarrow> py_error + pyval" where
  "reset_loop x =
     (case py_iter x of
        Inl e \<Rightarrow> Inl e
      | Inr items \<Rightarrow>
          (case reset_done items of
             Inl e \<Rightarrow> Inl e
           | Inr items' \<Rightarrow> Inr (case x of PList _ \<Rightarrow> PList items' | _ \<Rightarrow> x)))"

text \<open>
  \<^verbatim>\<open>load\<close>, run by the constructor on the backing file, with \<open>today\<close> the value of
  \<^verbatim>\<open>datetime.now().strftime("%Y-%m-%d")\<close>, a string of digits and hyphens. An exception
  leaves no task manager, only the file; before \<^verbatim>\<open>save\<close> the file has not been touched.
  The default list of \<^verbatim>\<open>.get("daily", [])\<close> is a temporary: it is not put back.
\<close>

definition load :: "backing_file \<Rightarrow> string \<Rightarrow> (py_error \<times> backing_file) + task_manager" where
  "load b today =
     (let d = read_data (content b) in
      case dict_get d (py ''last_date'') PNone of
        Inl e \<Rightarrow> Inl (e, b)
      | Inr stored \<Rightarrow>
          if stored \<noteq> PStr (py today) then
            (case dict_get d (py ''daily'') (PList []) of
               Inl e \<Rightarrow> Inl (e, b)
             | Inr tasks \<Rightarrow>
                 (case reset_loop tasks of
                    Inl e \<Rightarrow> Inl (e, b)
                  | Inr tasks' \<Rightarrow>
                      (let d1 = (case getitem_str d (py ''daily'') of
                                   Inl e \<Rightarrow> d
                                 | Inr v \<Rightarrow> put_back d (py ''daily'') tasks')
                       in case setitem_str d1 (py ''last_date'') (PStr (py today)) of
                            Inl e \<Rightarrow> Inl (e, b)
                          | Inr d2 \<Rightarrow>
                              (case save \<lparr>data = d2, backing = b\<rparr> of
                                 Inl (e, s) \<Rightarrow> Inl (e, backing s)
                               | Inr s \<Rightarrow> Inr s))))
          else Inr \<lparr>data = d, backing = b\<rparr>)"

definition target_key :: "bool \<Rightarrow> pystr" where
  "target_key is_daily = (if is_daily then py ''daily'' else py ''todo'')"

definition add_task :: "task_manager \<Rightarrow> pystr \<Rightarrow> bool \<Rightarrow> task_manager raising" where
  "add_task s txt is_daily =
     (case getitem_str (data s) (target_key is_daily) of
        Inl e \<Rightarrow> Inl (e, s)
      | Inr target \<Rightarrow>
          (case py_append target (PDict [(py ''text'', PStr txt), (py ''done'', PBool False)]) of
             Inl e \<Rightarrow> Inl (e, s)
           | Inr target' \<Rightarrow>
               save (s\<lparr>data := put_back (data s) (target_key is_daily) target'\<rparr>)))"

text \<open>\<^verbatim>\<open>0 <= index < len(target)\<close>: the length is not taken when the index is negative.\<close>

definition in_range :: "int \<Rightarrow> pyval \<Rightarrow> py_error + bool" where
  "in_range index target =
     (if 0 \<le> index then (case py_len target of Inl e \<Rightarrow> Inl e | Inr n \<Rightarrow> Inr (index < n))
      else Inr False)"

definition toggle_task :: "task_manager \<Rightarrow> bool \<Rightarrow> int \<Rightarrow> task_manager raising" where
  "toggle_task s is_daily index =
     (case getitem_str (data s) (target_key is_daily) of
        Inl e \<Rightarrow> Inl (e, s)
      | Inr target \<Rightarrow>
          (case in_range index target of
             Inl e \<Rightarrow> Inl (e, s)
           | Inr False \<Rightarrow> Inr s
           | Inr True \<Rightarrow>
               (case getitem_int target index of
                  Inl e \<Rightarrow> Inl (e, s)
                | Inr task \<Rightarrow>
                    (case getitem_str task (py ''done'') of
                       Inl e \<Rightarrow> Inl (e, s)
                     | Inr v \<Rightarrow>
                         (case setitem_str task (py ''done'') (PBool (\<not> truthy v)) of
                            Inl e \<Rightarrow> Inl (e, s)
                          | Inr task' \<Rightarrow>
                              save (s\<lparr>data := put_back (data s) (target_key is_daily)
                                     (put_back_at target index task')\<rparr>))))))"

definition remove_task :: "task_manager \<Rightarrow> bool \<Rightarrow> int \<Rightarrow> task_manager raising" where
  "remove_task s is_daily index =
     (case getitem_str (data s) (target_key is_daily) of
        Inl e \<Rightarrow> Inl (e, s)
      | Inr target \<Rightarrow>
          (case in_range index target of
             Inl e \<Rightarrow> Inl (e, s)
           | Inr False \<Rightarrow> Inr s
           | Inr True \<Rightarrow>
               (case delitem_int target index of
                  Inl e \<Rightarrow> Inl (e, s)
                | Inr target' \<Rightarrow>
                    save (s\<lparr>data := put_back (data s) (target_key is_daily) target'\<rparr>))))"

text \<open>\<^verbatim>\<open>for t in items: if not t["done"]: count += 1\<close>\<close>

fun count_undone :: "pyval list \<Rightarrow> int \<Rightarrow> py_error + int" where
  "count_undone [] count = Inr count"
| "count_undone (t # ts) count =
     (case getitem_str t (py ''done'') of
        Inl e \<Rightarrow> Inl e
      | Inr v \<Rightarrow> count_undone ts (if \<not> truthy v then count + 1 else count))"

definition get_undone_count :: "task_manager \<Rightarrow> py_error + int" where
  "get_undone_count s =
     (case getitem_str (data s) (py ''daily'') of
        Inl e \<Rightarrow> Inl e
      | Inr daily_list \<Rightarrow>
          (case py_iter daily_list of
             Inl e \<Rightarrow> Inl e
           | Inr ds \<Rightarrow>
               (case count_undone ds 0 of
                  Inl e \<Rightarrow> Inl e
                | Inr c \<Rightarrow>
                    (case getitem_str (data s) (py ''todo'') of
                       Inl e \<Rightarrow> Inl e
                     | Inr todo_list \<Rightarrow>
                         (case py_iter todo_list of
                            Inl e \<Rightarrow> Inl e
                          | Inr ts \<Rightarrow> count_undone ts c)))))"

section \<open>FancyDock\<close>

text \<open>
  The percentage of \<^verbatim>\<open>refresh_list\<close> is computed in double precision. A finite double
  that is not negative is the pair \<open>(m, e)\<close> of its value \<open>m * 2 ^ e\<close>; the operations
  round to the nearest double, ties to the even significand, with 53 bits and exponents
  from \<open>-1074\<close> (the values met here are at most 100, far from overflow).
\<close>

function bit_length :: "int \<Rightarrow> int" where
  "bit_length n = (if n \<le> 0 then 0 else bit_length (n div 2) + 1)"
  by pat_completeness auto
termination
  by (relation "measure nat") auto

declare bit_length.simps [simp del]

text \<open>The integer below the base 2 logarithm of \<open>a / b\<close>, for positive \<open>a\<close> and \<open>b\<close>.\<close>

definition floor_log2 :: "int \<Rightarrow> int \<Rightarrow> int" where
  "floor_log2 a b =
     (let k = bit_length a - bit_length b
      in if (if 0 \<le> k then b * 2 ^ nat k \<le> a else b \<le> a * 2 ^ nat (- k)) then k else k - 1)"

text \<open>The integer nearest to \<open>n / d\<close>, the even one of two equally near.\<close>

definition round_half_even :: "int \<Rightarrow> int \<Rightarrow> int" where
  "round_half_even n d =
     (let q = n div d; r = n mod d
      in if 2 * r < d then q else if d < 2 * r then q + 1 else if even q then q else q + 1)"

text \<open>The double nearest to \<open>a / b\<close>, for \<open>a\<close> not negative and \<open>b\<close> positive.\<close>

definition to_double :: "int \<Rightarrow> int \<Rightarrow> int \<times> int" where
  "to_double a b =
     (if a = 0 then (0, 0)
      else let e = max (floor_log2 a b - 52) (- 1074)
           in (if 0 \<le> e then round_half_even a (b * 2 ^ nat e)
               else round_half_even (a * 2 ^ nat (- e)) b, e))"

text \<open>\<^verbatim>\<open>a / b\<close> on integers (the divisor is not zero where it is used), \<^verbatim>\<open>x * c\<close> with an
  integer \<open>c\<close> that is itself a double (as 100 is), and \<^verbatim>\<open>int(x)\<close>.\<close>

definition true_div :: "int \<Rightarrow> int \<Rightarrow> int \<times> int" where
  "true_div a b = to_double a b"

fun float_mul :: "int \<times> int \<Rightarrow> int \<Rightarrow> int \<times> int" where
  "float_mul (m, e) c =
     (if 0 \<le> e then to_double (m * c * 2 ^ nat e) 1 else to_double (m * c) (2 ^ nat (- e)))"

fun py_int :: "int \<times> int \<Rightarrow> int" where
  "py_int (m, e) = (if 0 \<le> e then m * 2 ^ nat e else m div 2 ^ nat (- e))"

text \<open>The real number that a pair stands for.\<close>

definition double_value :: "int \<times> int \<Rightarrow> real" where
  "double_value x = real_of_int (fst x) * 2 powi (snd x)"

text \<open>
  Of the window, the model keeps the task manager, the \<^verbatim>\<open>Qt.UserRole\<close> data of the rows
  of the list widget, top to bottom (the \<^verbatim>\<open>daily\<close> flag and the text), the value of the
  progress bar, the style sheet of the handle strip and the messages shown by the tray
  icon; geometry, animation and styling of the other widgets are left out. The
  reminder's text is fixed but for the count it prints, so a message is kept as that
  count.
\<close>

datatype tray_message = Reminder int

record fancy_dock =
  tm :: task_manager
  list_widget :: "(bool \<times> pyval) list"
  progress_bar :: int
  neon_strip :: string
  tray :: "tray_message list"

definition strip_red :: string where
  "strip_red = ''background-color: #FF0000; border-radius: 3px;''"

definition strip_green :: string where
  "strip_green = ''background-color: #00f260; border-radius: 3px;''"

definition check_reminders :: "fancy_dock \<Rightarrow> fancy_dock raising" where
  "check_reminders w =
     (case get_undone_count (tm w) of
        Inl e \<Rightarrow> Inl (e, w)
      | Inr count \<Rightarrow>
          if count > 0 then Inr (w\<lparr>tray := tray w @ [Reminder count], neon_strip := strip_red\<rparr>)
          else Inr w)"

text \<open>
  \<^verbatim>\<open>add_item\<close> builds the row's widget and stores the row's data. The label of the
  widget takes a string (or \<^verbatim>\<open>None\<close>, read as no parent widget); the toolkit rejects
  any other text.
\<close>

fun add_item ::
  "(bool \<times> pyval) list \<Rightarrow> pyval \<Rightarrow> pyval \<Rightarrow> bool \<Rightarrow> py_error + (bool \<times> pyval) list" where
  "add_item rows (PStr t) dn is_daily = Inr (rows @ [(is_daily, PStr t)])"
| "add_item rows PNone dn is_daily = Inr (rows @ [(is_daily, PNone)])"
| "add_item rows _ dn is_daily = Inl TypeError"

text \<open>One loop of \<^verbatim>\<open>refresh_list\<close> over the rows, \<^verbatim>\<open>total\<close> and \<^verbatim>\<open>done_c\<close>; an exception
  leaves the rows added so far.\<close>

fun refresh_loop ::
  "bool \<Rightarrow> pyval list \<Rightarrow> (bool \<times> pyval) list \<times> int \<times> int \<Rightarrow>
     (py_error \<times> (bool \<times> pyval) list) + (bool \<times> pyval) list \<times> int \<times> int" where
  "refresh_loop is_daily [] acc = Inr acc"
| "refresh_loop is_daily (t # ts) (rows, total_c, done_c) =
     (case getitem_str t (py ''text'') of
        Inl e \<Rightarrow> Inl (e, rows)
      | Inr txt \<Rightarrow>
          (case getitem_str t (py ''done'') of
             Inl e \<Rightarrow> Inl (e, rows)
           | Inr dn \<Rightarrow>
               (case add_item rows txt dn is_daily of
                  Inl e \<Rightarrow> Inl (e, rows)
                | Inr rows' \<Rightarrow>
                    refresh_loop is_daily ts
                      (rows', total_c + 1, done_c + (if truthy dn then 1 else 0)))))"

text \<open>\<^verbatim>\<open>refresh_list\<close> empties the list widget first; the progress bar and the strip are
  set after both loops.\<close>

definition refresh_list :: "fancy_dock \<Rightarrow> fancy_dock raising" where
  "refresh_list w =
     (case getitem_str (data (tm w)) (py ''daily'') of
        Inl e \<Rightarrow> Inl (e, w\<lparr>list_widget := []\<rparr>)
      | Inr daily_list \<Rightarrow>
          (case py_iter daily_list of
             Inl e \<Rightarrow> Inl (e, w\<lparr>list_widget := []\<rparr>)
           | Inr ds \<Rightarrow>
               (case refresh_loop True ds ([], 0, 0) of
                  Inl (e, rows) \<Rightarrow> Inl (e, w\<lparr>list_widget := rows\<rparr>)
                | Inr acc \<Rightarrow>
                    (case getitem_str (data (tm w)) (py ''todo'') of
                       Inl e \<Rightarrow> Inl (e, w\<lparr>list_widget := fst acc\<rparr>)
                     | Inr todo_list \<Rightarrow>
                         (case py_iter todo_list of
                            Inl e \<Rightarrow> Inl (e, w\<lparr>list_widget := fst acc\<rparr>)
                          | Inr ts \<Rightarrow>
                              (case refresh_loop False ts acc of
                                 Inl (e, rows) \<Rightarrow> Inl (e, w\<lparr>list_widget := rows\<rparr>)
                               | Inr (rows, total_c, done_c) \<Rightarrow>
                                   (let val = (if total_c = 0 then 0
                                               else py_int (float_mul (true_div done_c total_c) 100))
                                    in Inr (w\<lparr>list_widget := rows, progress_bar := val,
                                         neon_strip := (if done_c = total_c \<and> total_c > 0
                                                        then strip_green else neon_strip w)\<rparr>))))))))"

text \<open>
  The loop of \<^verbatim>\<open>on_item_clicked\<close> and of \<^verbatim>\<open>show_context_menu\<close>:
  \<^verbatim>\<open>for i, task in enumerate(target): if task["text"] == data["text"]: op(daily, i); break\<close>.
  A row's text is a string or \<^verbatim>\<open>None\<close> (see \<open>add_item\<close>), and such a value is \<^verbatim>\<open>==\<close> to
  exactly itself.
\<close>

fun first_with_text ::
  "(task_manager \<Rightarrow> bool \<Rightarrow> int \<Rightarrow> task_manager raising) \<Rightarrow>
     task_manager \<Rightarrow> bool \<Rightarrow> pyval \<Rightarrow> pyval list \<Rightarrow> int \<Rightarrow> task_manager raising" where
  "first_with_text op s is_daily txt [] i = Inr s"
| "first_with_text op s is_daily txt (task # rest) i =
     (case getitem_str task (py ''text'') of
        Inl e \<Rightarrow> Inl (e, s)
      | Inr v \<Rightarrow>
          if v = txt then op s is_daily i
          else first_with_text op s is_daily txt rest (i + 1))"

definition on_item_clicked :: "fancy_dock \<Rightarrow> bool \<times> pyval \<Rightarrow> fancy_dock raising" where
  "on_item_clicked w item =
     (case getitem_str (data (tm w)) (target_key (fst item)) of
        Inl e \<Rightarrow> Inl (e, w)
      | Inr target \<Rightarrow>
          (case py_iter target of
             Inl e \<Rightarrow> Inl (e, w)
           | Inr tasks \<Rightarrow>
               (case first_with_text toggle_task (tm w) (fst item) (snd item) tasks 0 of
                  Inl (e, s') \<Rightarrow> Inl (e, w\<lparr>tm := s'\<rparr>)
                | Inr s' \<Rightarrow> refresh_list (w\<lparr>tm := s'\<rparr>))))"

text \<open>\<^verbatim>\<open>show_context_menu\<close> on the row under the pointer, if there is one; \<open>chosen\<close>
  says that the user picked the menu's delete action.\<close>

definition show_context_menu ::
  "fancy_dock \<Rightarrow> (bool \<times> pyval) option \<Rightarrow> bool \<Rightarrow> fancy_dock raising" where
  "show_context_menu w at_pos chosen =
     (case at_pos of
        None \<Rightarrow> Inr w
      | Some item \<Rightarrow>
          if chosen then
            (case getitem_str (data (tm w)) (target_key (fst item)) of
               Inl e \<Rightarrow> Inl (e, w)
             | Inr target \<Rightarrow>
                 (case py_iter target of
                    Inl e \<Rightarrow> Inl (e, w)
                  | Inr tasks \<Rightarrow>
                      (case first_with_text remove_task (tm w) (fst item) (snd item) tasks 0 of
                         Inl (e, s') \<Rightarrow> Inl (e, w\<lparr>tm := s'\<rparr>)
                       | Inr s' \<Rightarrow> refresh_list (w\<lparr>tm := s'\<rparr>))))
          else Inr w)"

section \<open>The data model: two lists of tasks and a date\<close>

text \<open>
  The state the program works on is a dict with a string under \<^verbatim>\<open>last_date\<close> and lists
  under \<^verbatim>\<open>daily\<close> and \<^verbatim>\<open>todo\<close>, each entry a dict with a string under \<^verbatim>\<open>text\<close> and a
  bool under \<^verbatim>\<open>done\<close>. \<open>store_of\<close> reads such a value as a record and is \<open>None\<close>
  on every other value; further keys and the order of the keys are not looked at.
\<close>

record task =
  task_text :: pystr
  task_done :: bool

record store =
  last_date :: pystr
  daily :: "task list"
  todo :: "task list"

fun task_of :: "pyval \<Rightarrow> task option" where
  "task_of (PDict kvs) =
     (case (map_of kvs (py ''text''), map_of kvs (py ''done'')) of
        (Some (PStr t), Some (PBool b)) \<Rightarrow> Some \<lparr>task_text = t, task_done = b\<rparr>
      | _ \<Rightarrow> None)"
| "task_of _ = None"

fun tasks_of :: "pyval \<Rightarrow> task list option" where
  "tasks_of (PList xs) = those (map task_of xs)"
| "tasks_of _ = None"

fun store_of :: "pyval \<Rightarrow> store option" where
  "store_of (PDict kvs) =
     (case (map_of kvs (py ''last_date''), map_of kvs (py ''daily''), map_of kvs (py ''todo'')) of
        (Some (PStr dt), Some dv, Some tv) \<Rightarrow>
          (case (tasks_of dv, tasks_of tv) of
             (Some ds, Some ts) \<Rightarrow> Some \<lparr>last_date = dt, daily = ds, todo = ts\<rparr>
           | _ \<Rightarrow> None)
      | _ \<Rightarrow> None)"
| "store_of _ = None"

definition well_formed :: "pyval \<Rightarrow> bool" where
  "well_formed d = (store_of d \<noteq> None)"

text \<open>The list that a flag selects, and the store with that list replaced.\<close>

definition target_list :: "bool \<Rightarrow> store \<Rightarrow> task list" where
  "target_list is_daily st = (if is_daily then daily st else todo st)"

definition with_target :: "bool \<Rightarrow> task list \<Rightarrow> store \<Rightarrow> store" where
  "with_target is_daily ts st = (if is_daily then st\<lparr>daily := ts\<rparr> else st\<lparr>todo := ts\<rparr>)"

text \<open>The position of the first task with a given text (the length of the list if there
  is none), the rows that show a store, and the percentage as \<^verbatim>\<open>refresh_list\<close> computes
  it from the two counters.\<close>

definition first_pos :: "pystr \<Rightarrow> task list \<Rightarrow> nat" where
  "first_pos t ts = length (takeWhile (\<lambda>x. task_text x \<noteq> t) ts)"

definition rows_of :: "store \<Rightarrow> (bool \<times> pyval) list" where
  "rows_of st = map (\<lambda>t. (True, PStr (task_text t))) (daily st) @
                map (\<lambda>t. (False, PStr (task_text t))) (todo st)"

definition percent :: "int \<Rightarrow> int \<Rightarrow> int" where
  "percent done_c total_c =
     (if total_c = 0 then 0 else py_int (float_mul (true_div done_c total_c) 100))"

text \<open>
  What a method that ends in \<^verbatim>\<open>save\<close> leaves, told from the file \<open>b\<close> it started with and
  its result: an exception of \<^verbatim>\<open>open\<close> and the file as it was; or the return and the file
  holding the data now in memory; or an exception of the encoder and the file cut off.
\<close>

definition saved_or_raised :: "backing_file \<Rightarrow> task_manager raising \<Rightarrow> bool" where
  "saved_or_raised b r =
     (let s' = state_after r in
      if \<not> writable b then r = Inl (OSError, s') \<and> backing s' = b
      else if encodable (data s') then
        r = Inr s' \<and>
        backing s' = \<lparr>content = Doc (data s'), writable = True, writes = Suc (writes b)\<rparr>
      else
        r = Inl (UnicodeEncodeError, s') \<and>
        backing s' = \<lparr>content = Unreadable, writable = True, writes = Suc (writes b)\<rparr>)"

section \<open>Example states\<close>

text \<open>A small store with a text that occurs twice, as a value, as a record, in a task
  manager, in a backing file and in a window.\<close>

definition demo_data :: pyval where
  "demo_data = PDict
     [(py ''last_date'', PStr (py ''2026-11-02'')),
      (py ''daily'', PList [PDict [(py ''text'', PStr (py ''stretch'')), (py ''done'', PBool True)]]),
      (py ''todo'', PList [PDict [(py ''text'', PStr (py ''mail'')), (py ''done'', PBool False)],
                        PDict [(py ''text'', PStr (py ''mail'')), (py ''done'', PBool False)]])]"

definition demo_store :: store where
  "demo_store =
     \<lparr>last_date = py ''2026-11-02'',
      daily = [\<lparr>task_text = py ''stretch'', task_done = True\<rparr>],
      todo = [\<lparr>task_text = py ''mail'', task_done = False\<rparr>,
              \<lparr>task_text = py ''mail'', task_done = False\<rparr>]\<rparr>"

definition demo_manager :: task_manager where
  "demo_manager = \<lparr>data = demo_data, backing = \<lparr>content = Doc demo_data, writable = True, writes = 0\<rparr>\<rparr>"

definition demo_file :: backing_file where
  "demo_file = \<lparr>content = Doc demo_data, writable = True, writes = 0\<rparr>"

definition demo_dock :: fancy_dock where
  "demo_dock = \<lparr>tm = demo_manager, list_widget = [], progress_bar = 0,
                 neon_strip = strip_green, tray = []\<rparr>"

text \<open>A store whose tasks are all done.\<close>

definition idle_data :: pyval where
  "idle_data = PDict
     [(py ''last_date'', PStr (py ''2026-11-03'')),
      (py ''daily'', PList [PDict [(py ''text'', PStr (py ''stretch'')), (py ''done'', PBool True)]]),
      (py ''todo'', PList [])]"

definition idle_dock :: fancy_dock where
  "idle_dock = \<lparr>tm = \<lparr>data = idle_data, backing = \<lparr>content = Doc idle_data, writable = True, writes = 0\<rparr>\<rparr>,
                 list_widget = [], progress_bar = 0, neon_strip = strip_green, tray = []\<rparr>"

text \<open>A store of fifty daily tasks, twenty-nine of them done.\<close>

definition busy_data :: pyval where
  "busy_data = PDict
     [(py ''last_date'', PStr (py ''2026-11-03'')),
      (py ''daily'', PList (replicate 29 (PDict [(py ''text'', PStr (py ''a'')), (py ''done'', PBool True)]) @
                        replicate 21 (PDict [(py ''text'', PStr (py ''b'')), (py ''done'', PBool False)]))),
      (py ''todo'', PList [])]"

definition busy_dock :: fancy_dock where
  "busy_dock = \<lparr>tm = \<lparr>data = busy_data, backing = \<lparr>content = Doc busy_data, writable = True, writes = 0\<rparr>\<rparr>,
                 list_widget = [], progress_bar = 0, neon_strip = strip_green, tray = []\<rparr>"





section \<open>Reading well-formed values\<close>

lemma py_eq_iff [simp]: "py a = py b \<longleftrightarrow> a = b"
  by (simp add: py_def inj_map_eq_map inj_of_char)

lemma py_Nil [simp]: "py [] = []"
  by (simp add: py_def)

lemma py_eq_Nil [simp]: "py s = [] \<longleftrightarrow> s = []" "[] = py s \<longleftrightarrow> s = []"
  by (auto simp: py_def)

lemma of_char_below_256: "(of_char c :: nat) < 256"
proof -
  have "(of_char c :: nat) mod 256 < 256" by simp
  then show ?thesis by (simp only: of_char_mod_256)
qed

lemma str_encodable_py [simp]: "str_encodable (py s)"
proof -
  have "(of_char c :: nat) < 0xD800" for c
    by (rule less_trans[OF of_char_below_256]) simp
  then show ?thesis by (simp add: str_encodable_def py_def list_all_iff)
qed

lemma save_data: "data (state_after (save s)) = data s"
  by (simp add: save_def)

lemma list_index_in_range: "0 \<le> i \<Longrightarrow> i < int n \<Longrightarrow> list_index i n = Some (nat i)"
  by (simp add: list_index_def)

lemma those_eq_Some: "those os = Some ys \<longleftrightarrow> os = map Some ys"
proof (induction os arbitrary: ys)
  case Nil
  then show ?case by auto
next
  case (Cons a os)
  then show ?case by (cases ys) (auto split: option.splits)
qed

lemma those_map_Some [simp]: "those (map Some ys) = Some ys"
  by (simp add: those_eq_Some)

lemma task_of_Some:
  "task_of v = Some t \<longleftrightarrow>
     (\<exists>kvs. v = PDict kvs \<and> map_of kvs (py ''text'') = Some (PStr (task_text t)) \<and>
        map_of kvs (py ''done'') = Some (PBool (task_done t)))"
  by (cases v) (auto split: option.splits pyval.splits)

lemma tasks_of_Some: "tasks_of v = Some ts \<longleftrightarrow> (\<exists>xs. v = PList xs \<and> map task_of xs = map Some ts)"
  by (cases v) (auto simp: those_eq_Some)

lemma store_of_Some:
  "store_of d = Some st \<longleftrightarrow>
     (\<exists>kvs dv tv. d = PDict kvs \<and>
        map_of kvs (py ''last_date'') = Some (PStr (last_date st)) \<and>
        map_of kvs (py ''daily'') = Some (PList dv) \<and> map task_of dv = map Some (daily st) \<and>
        map_of kvs (py ''todo'') = Some (PList tv) \<and> map task_of tv = map Some (todo st))"
  by (cases d) (auto simp: tasks_of_Some split: option.splits pyval.splits)

lemma save_saved_or_raised: "saved_or_raised (backing s) (save (s\<lparr>data := d\<rparr>))"
  by (simp add: saved_or_raised_def save_def)

section \<open>Values that can be encoded\<close>

lemma encodable_lookup:
  assumes "encodable (PDict kvs)" and "map_of kvs k = Some v"
  shows "encodable v"
proof -
  from assms(2) have "(k, v) \<in> set kvs" by (rule map_of_SomeD)
  with assms(1) show ?thesis by (auto simp: list_all_iff)
qed

lemma encodable_update:
  assumes "encodable (PDict kvs)" and "str_encodable k" and "encodable v"
  shows "encodable (PDict (AList.update k v kvs))"
  using assms by (induction kvs) auto

lemma setitem_str_encodable:
  assumes "setitem_str t k v = Inr t'" and "encodable t" and "str_encodable k" and "encodable v"
  shows "encodable t'"
proof (cases t)
  case (PDict kvs)
  with assms(1) have "t' = PDict (AList.update k v kvs)" by simp
  with assms(2-4) PDict show ?thesis by (simp only: encodable_update)
qed (use assms(1) in simp_all)

lemma reset_done_encodable:
  assumes "reset_done xs = Inr xs'" and "list_all encodable xs"
  shows "list_all encodable xs'"
  using assms
proof (induction xs arbitrary: xs')
  case Nil
  then show ?case by simp
next
  case (Cons x xs)
  from Cons.prems(1) obtain x' ys where
    r: "setitem_str x (py ''done'') (PBool False) = Inr x'" "reset_done xs = Inr ys" "xs' = x' # ys"
    by (auto split: sum.splits)
  have "encodable x'" using r(1) Cons.prems(2) by (auto intro: setitem_str_encodable)
  moreover have "list_all encodable ys" using Cons.IH[OF r(2)] Cons.prems(2) by simp
  ultimately show ?case using r(3) by simp
qed

lemma put_back_encodable:
  assumes "encodable d" and "str_encodable k" and "encodable v"
  shows "encodable (put_back d k v)"
  using assms by (cases d) (simp_all only: put_back.simps encodable_update)

lemma getitem_str_encodable:
  assumes "getitem_str d k = Inr v" and "encodable d"
  shows "encodable v"
proof (cases d)
  case (PDict kvs)
  with assms(1) have "map_of kvs k = Some v" by (simp split: option.splits)
  with assms(2) PDict show ?thesis by (auto intro: encodable_lookup)
qed (use assms(1) in simp_all)

lemma target_key_encodable [simp]: "str_encodable (target_key b)"
  by (simp add: target_key_def)

lemma add_task_encodable:
  assumes "encodable (data s)" and "str_encodable txt"
  shows "encodable (data (state_after (add_task s txt b)))"
proof (cases "getitem_str (data s) (target_key b)")
  case (Inl e)
  then show ?thesis using assms(1) by (simp add: add_task_def)
next
  case (Inr target)
  have t: "encodable target" using Inr assms(1) by (rule getitem_str_encodable)
  show ?thesis
  proof (cases target)
    case (PList xs)
    have "encodable (PList (xs @ [PDict [(py ''text'', PStr txt), (py ''done'', PBool False)]]))"
      using t PList assms(2) by simp
    then show ?thesis using Inr PList assms(1)
      by (simp add: add_task_def save_data put_back_encodable)
  qed (use Inr assms(1) in \<open>simp_all add: add_task_def\<close>)
qed

lemma remove_task_encodable:
  assumes "encodable (data s)"
  shows "encodable (data (state_after (remove_task s b i)))"
proof (cases "getitem_str (data s) (target_key b)")
  case (Inl e)
  then show ?thesis using assms by (simp add: remove_task_def)
next
  case (Inr target)
  have t: "encodable target" using Inr assms by (rule getitem_str_encodable)
  show ?thesis
  proof (cases "in_range i target")
    case (Inl e)
    then show ?thesis using Inr assms by (simp add: remove_task_def)
  next
    case r: (Inr inside)
    show ?thesis
    proof (cases inside)
      case False
      then show ?thesis using Inr r assms by (simp add: remove_task_def)
    next
      case True
      show ?thesis
      proof (cases "delitem_int target i")
        case (Inl e)
        then show ?thesis using Inr r True assms by (simp add: remove_task_def)
      next
        case d: (Inr target')
        have "encodable target'"
        proof (cases target)
          case (PList xs)
          from d PList obtain j where "target' = PList (take j xs @ drop (Suc j) xs)"
            by (auto split: option.splits)
          moreover have "list_all encodable (take j xs @ drop (Suc j) xs)" for j
            using t PList by (auto simp: list_all_iff dest: in_set_takeD in_set_dropD)
          ultimately show ?thesis by simp
        qed (use d in simp_all)
        then show ?thesis using Inr r True d assms
          by (simp add: remove_task_def save_data put_back_encodable)
      qed
    qed
  qed
qed

lemma toggle_task_encodable:
  assumes "encodable (data s)"
  shows "encodable (data (state_after (toggle_task s b i)))"
proof (cases "getitem_str (data s) (target_key b)")
  case (Inl e)
  then show ?thesis using assms by (simp add: toggle_task_def)
next
  case (Inr target)
  have t: "encodable target" using Inr assms by (rule getitem_str_encodable)
  show ?thesis
  proof (cases "in_range i target")
    case (Inl e)
    then show ?thesis using Inr assms by (simp add: toggle_task_def)
  next
    case r: (Inr inside)
    show ?thesis
    proof (cases inside)
      case False
      then show ?thesis using Inr r assms by (simp add: toggle_task_def)
    next
      case True
      show ?thesis
      proof (cases "getitem_int target i")
        case (Inl e)
        then show ?thesis using Inr r True assms by (simp add: toggle_task_def)
      next
        case g: (Inr task)
        show ?thesis
        proof (cases "getitem_str task (py ''done'')")
          case (Inl e)
          then show ?thesis using Inr r True g assms by (simp add: toggle_task_def)
        next
          case v: (Inr v)
          show ?thesis
          proof (cases "setitem_str task (py ''done'') (PBool (\<not> truthy v))")
            case (Inl e)
            then show ?thesis using Inr r True g v assms by (simp add: toggle_task_def)
          next
            case u: (Inr task')
            have "encodable (put_back_at target i task')"
            proof (cases target)
              case (PList xs)
              from g PList obtain j where j: "list_index i (length xs) = Some j" "task = xs ! j"
                by (auto split: option.splits)
              then have jl: "j < length xs" by (auto simp: list_index_def split: if_splits)
              have "encodable task" using t PList j(2) jl by (simp add: list_all_length)
              then have "encodable task'" using u by (auto intro: setitem_str_encodable)
              then have "list_all encodable (xs[j := task'])"
                using t PList by (auto simp: list_all_iff dest: set_update_subset_insert[THEN subsetD])
              then show ?thesis using PList j(1) by simp
            qed (use t in simp_all)
            then show ?thesis using Inr r True g v u assms
              by (simp add: toggle_task_def save_data put_back_encodable)
          qed
        qed
      qed
    qed
  qed
qed

section \<open>TaskManager on well-formed stores\<close>

lemma getitem_target:
  assumes "store_of d = Some st"
  shows "\<exists>xs. getitem_str d (target_key b) = Inr (PList xs) \<and>
           map task_of xs = map Some (target_list b st)"
proof -
  from assms obtain kvs dv tv where d: "d = PDict kvs"
        "map_of kvs (py ''daily'') = Some (PList dv)" "map task_of dv = map Some (daily st)"
        "map_of kvs (py ''todo'') = Some (PList tv)" "map task_of tv = map Some (todo st)"
    unfolding store_of_Some by blast
  show ?thesis
  proof (cases b)
    case True
    then show ?thesis using d by (simp add: target_key_def target_list_def)
  next
    case False
    then show ?thesis using d by (simp add: target_key_def target_list_def)
  qed
qed

lemma store_of_put_back:
  assumes "store_of d = Some st" and "map task_of xs = map Some ts"
  shows "store_of (put_back d (target_key b) (PList xs)) = Some (with_target b ts st)"
proof -
  from assms obtain kvs dv tv where d: "d = PDict kvs"
        "map_of kvs (py ''last_date'') = Some (PStr (last_date st))"
        "map_of kvs (py ''daily'') = Some (PList dv)" "map task_of dv = map Some (daily st)"
        "map_of kvs (py ''todo'') = Some (PList tv)" "map task_of tv = map Some (todo st)"
    unfolding store_of_Some by blast
  show ?thesis
  proof (cases b)
    case True
    then show ?thesis unfolding store_of_Some using d assms(2)
      by (simp add: target_key_def with_target_def update_conv')
  next
    case False
    then show ?thesis unfolding store_of_Some using d assms(2)
      by (simp add: target_key_def with_target_def update_conv')
  qed
qed
lemma task_of_getitem_done:
  assumes "task_of x = Some t"
  shows "getitem_str x (py ''done'') = Inr (PBool (task_done t))"
  using assms unfolding task_of_Some by auto

lemma task_of_setitem_done:
  assumes "task_of x = Some t"
  shows "\<exists>x'. setitem_str x (py ''done'') (PBool b) = Inr x' \<and>
           task_of x' = Some (t\<lparr>task_done := b\<rparr>)"
proof -
  from assms obtain kvs where k: "x = PDict kvs" "map_of kvs (py ''text'') = Some (PStr (task_text t))"
      "map_of kvs (py ''done'') = Some (PBool (task_done t))"
    unfolding task_of_Some by blast
  have "task_of (PDict (AList.update (py ''done'') (PBool b) kvs)) = Some (t\<lparr>task_done := b\<rparr>)"
    unfolding task_of_Some using k by (simp add: update_conv')
  then show ?thesis using k(1) by simp
qed

lemma nth_of_map_Some:
  assumes "map f xs = map Some ts" and "n < length ts"
  shows "f (xs ! n) = Some (ts ! n)"
proof -
  have len: "length xs = length ts" using assms(1) by (rule map_eq_imp_length_eq)
  have "map f xs ! n = map Some ts ! n" using assms(1) by simp
  then show ?thesis using assms(2) len by simp
qed

lemma reset_done_tasks:
  assumes "map task_of xs = map Some ts"
  shows "\<exists>xs'. reset_done xs = Inr xs' \<and>
           map task_of xs' = map Some (map (\<lambda>t. t\<lparr>task_done := False\<rparr>) ts)"
  using assms
proof (induction xs arbitrary: ts)
  case Nil
  then show ?case by simp
next
  case (Cons x xs)
  from Cons.prems obtain t ts' where ts: "ts = t # ts'" by (cases ts) auto
  with Cons.prems have hd: "task_of x = Some t" and tl: "map task_of xs = map Some ts'"
    by simp_all
  from Cons.IH[OF tl] obtain xs' where xs': "reset_done xs = Inr xs'"
    "map task_of xs' = map Some (map (\<lambda>t. t\<lparr>task_done := False\<rparr>) ts')" by blast
  from task_of_setitem_done[OF hd, of False] obtain x' where
    x': "setitem_str x (py ''done'') (PBool False) = Inr x'"
        "task_of x' = Some (t\<lparr>task_done := False\<rparr>)" by blast
  have "reset_done (x # xs) = Inr (x' # xs')" using x'(1) xs'(1) by simp
  moreover have "map task_of (x' # xs') = map Some (map (\<lambda>t. t\<lparr>task_done := False\<rparr>) ts)"
    using x'(2) xs'(2) ts by simp
  ultimately show ?case by blast
qed

lemma add_task_run:
  assumes "store_of (data s) = Some st"
  shows "\<exists>d'. add_task s txt b = (save (s\<lparr>data := d'\<rparr>)) \<and>
           store_of d' = Some (with_target b
             (target_list b st @ [\<lparr>task_text = txt, task_done = False\<rparr>]) st)"
proof -
  from getitem_target[OF assms, of b] obtain xs where
    xs: "getitem_str (data s) (target_key b) = Inr (PList xs)"
        "map task_of xs = map Some (target_list b st)" by blast
  let ?new = "PDict [((py ''text''), PStr txt), ((py ''done''), PBool False)]"
  have "map task_of (xs @ [?new]) =
          map Some (target_list b st @ [\<lparr>task_text = txt, task_done = False\<rparr>])"
    using xs(2) by simp
  from store_of_put_back[OF assms this, of b]
  have st': "store_of (put_back (data s) (target_key b) (PList (xs @ [?new]))) =
      Some (with_target b (target_list b st @ [\<lparr>task_text = txt, task_done = False\<rparr>]) st)" .
  have run: "add_task s txt b =
      (save (s\<lparr>data := put_back (data s) (target_key b) (PList (xs @ [?new]))\<rparr>))"
    using xs(1) by (simp add: add_task_def)
  from run st' show ?thesis by blast
qed

lemma map_eq_take_drop:
  assumes "map f xs = map g ys"
  shows "map f (take n xs @ drop m xs) = map g (take n ys @ drop m ys)"
proof -
  have "map f (take n xs @ drop m xs) = take n (map f xs) @ drop m (map f xs)"
    by (simp add: take_map drop_map)
  also have "\<dots> = take n (map g ys) @ drop m (map g ys)" by (simp only: assms)
  also have "\<dots> = map g (take n ys @ drop m ys)" by (simp add: take_map drop_map)
  finally show ?thesis .
qed

lemma remove_task_run:
  assumes "store_of (data s) = Some st" and "0 \<le> i" and "i < int (length (target_list b st))"
  shows "\<exists>d'. remove_task s b i = (save (s\<lparr>data := d'\<rparr>)) \<and>
           store_of d' = Some (with_target b
             (take (nat i) (target_list b st) @ drop (Suc (nat i)) (target_list b st)) st)"
proof -
  let ?ts = "target_list b st"
  from getitem_target[OF assms(1), of b] obtain xs where
    xs: "getitem_str (data s) (target_key b) = Inr (PList xs)"
        "map task_of xs = map Some ?ts" by blast
  have len: "length xs = length ?ts" using xs(2) by (rule map_eq_imp_length_eq)
  have m: "map task_of (take (nat i) xs @ drop (Suc (nat i)) xs) =
             map Some (take (nat i) ?ts @ drop (Suc (nat i)) ?ts)"
    using xs(2) by (rule map_eq_take_drop)
  have run: "remove_task s b i = (save (s\<lparr>data := put_back (data s) (target_key b)
               (PList (take (nat i) xs @ drop (Suc (nat i)) xs))\<rparr>))"
    using xs(1) assms(2,3) len
    by (simp add: remove_task_def in_range_def list_index_in_range)
  from store_of_put_back[OF assms(1) m, of b] run show ?thesis by blast
qed

lemma toggle_task_run:
  assumes "store_of (data s) = Some st" and "0 \<le> i" and "i < int (length (target_list b st))"
  shows "\<exists>d'. toggle_task s b i = (save (s\<lparr>data := d'\<rparr>)) \<and>
           store_of d' = Some (with_target b
             ((target_list b st)[nat i := (target_list b st ! nat i)
                 \<lparr>task_done := \<not> task_done (target_list b st ! nat i)\<rparr>]) st)"
proof -
  let ?ts = "target_list b st"
  from getitem_target[OF assms(1), of b] obtain xs where
    xs: "getitem_str (data s) (target_key b) = Inr (PList xs)"
        "map task_of xs = map Some ?ts" by blast
  have len: "length xs = length ?ts" using xs(2) by (rule map_eq_imp_length_eq)
  have n: "nat i < length ?ts" using assms(2,3) by simp
  have "task_of (xs ! nat i) = Some (?ts ! nat i)" by (rule nth_of_map_Some[OF xs(2) n])
  note tk = this
  let ?t' = "(?ts ! nat i)\<lparr>task_done := \<not> task_done (?ts ! nat i)\<rparr>"
  from task_of_setitem_done[OF tk, of "\<not> task_done (?ts ! nat i)"] obtain x' where
    x': "setitem_str (xs ! nat i) (py ''done'') (PBool (\<not> task_done (?ts ! nat i))) = Inr x'"
        "task_of x' = Some ?t'" by blast
  have m: "map task_of (xs[nat i := x']) = map Some (?ts[nat i := ?t'])"
    using xs(2) x'(2) by (simp add: map_update)
  have run: "toggle_task s b i = (save (s\<lparr>data := put_back (data s) (target_key b) (PList (xs[nat i := x']))\<rparr>))"
    using xs(1) assms(2,3) len task_of_getitem_done[OF tk] x'(1)
    by (simp add: toggle_task_def in_range_def list_index_in_range)
  from store_of_put_back[OF assms(1) m, of b] run show ?thesis by blast
qed

lemma out_of_range_run:
  assumes "getitem_str (data s) (target_key b) = Inr (PList xs)"
    and "i < 0 \<or> int (length xs) \<le> i"
  shows "toggle_task s b i = Inr s" and "remove_task s b i = Inr s"
  using assms by (auto simp: toggle_task_def remove_task_def in_range_def)

lemma demo_manager_store: "store_of (data demo_manager) = Some demo_store"
  by (simp add: demo_manager_def demo_data_def demo_store_def)

lemma load_reset_run:
  assumes "store_of (read_data (content b)) = Some st" and "last_date st \<noteq> py today"
  shows "\<exists>d'. store_of d' = Some (st\<lparr>last_date := py today,
             daily := map (\<lambda>t. t\<lparr>task_done := False\<rparr>) (daily st)\<rparr>) \<and>
           (encodable (read_data (content b)) \<longrightarrow> encodable d') \<and>
           load b today = (case save \<lparr>data = d', backing = b\<rparr> of
                             Inl (e, s) \<Rightarrow> Inl (e, backing s) | Inr s \<Rightarrow> Inr s)"
proof -
  from assms(1) obtain kvs dv tv where d: "read_data (content b) = PDict kvs"
        "map_of kvs (py ''last_date'') = Some (PStr (last_date st))"
        "map_of kvs (py ''daily'') = Some (PList dv)" "map task_of dv = map Some (daily st)"
        "map_of kvs (py ''todo'') = Some (PList tv)" "map task_of tv = map Some (todo st)"
    unfolding store_of_Some by blast
  from reset_done_tasks[OF d(4)] obtain dv' where dv': "reset_done dv = Inr dv'"
    "map task_of dv' = map Some (map (\<lambda>t. t\<lparr>task_done := False\<rparr>) (daily st))" by blast
  let ?d' = "PDict (AList.update (py ''last_date'') (PStr (py today))
                 (AList.update (py ''daily'') (PList dv') kvs))"
  have loop: "reset_loop (PList dv) = Inr (PList dv')"
    using dv'(1) by (simp add: reset_loop_def)
  have run: "load b today = (case save \<lparr>data = ?d', backing = b\<rparr> of
                               Inl (e, s) \<Rightarrow> Inl (e, backing s) | Inr s \<Rightarrow> Inr s)"
    using d(1,2,3) assms(2) loop by (simp add: load_def)
  have st': "store_of ?d' = Some (st\<lparr>last_date := py today,
             daily := map (\<lambda>t. t\<lparr>task_done := False\<rparr>) (daily st)\<rparr>)"
    unfolding store_of_Some using d dv'(2) by (simp add: update_conv')
  have enc: "encodable ?d'" if e: "encodable (PDict kvs)"
  proof -
    have "encodable (PList dv)" using e d(3) by (rule encodable_lookup)
    then have "list_all encodable dv" by simp
    then have "list_all encodable dv'" using dv'(1) by (rule reset_done_encodable[rotated])
    then have l: "encodable (PList dv')" by simp
    have e1: "encodable (PDict (AList.update (py ''daily'') (PList dv') kvs))"
      by (rule encodable_update[OF e _ l]) simp
    show ?thesis by (rule encodable_update[OF e1]) simp_all
  qed
  have enc': "encodable (read_data (content b)) \<longrightarrow> encodable ?d'"
    using enc by (simp only: d(1)) blast
  from st' enc' run show ?thesis by blast
qed

lemma load_same_run:
  assumes "store_of (read_data (content b)) = Some st" and "last_date st = py today"
  shows "load b today = Inr \<lparr>data = read_data (content b), backing = b\<rparr>"
proof -
  from assms(1) obtain kvs where d: "read_data (content b) = PDict kvs"
        "map_of kvs (py ''last_date'') = Some (PStr (last_date st))"
    unfolding store_of_Some by blast
  then show ?thesis using assms(2) by (simp add: load_def)
qed

lemma store_of_empty_default:
  "store_of empty_default = Some \<lparr>last_date = [], daily = [], todo = []\<rparr>"
  by (simp add: empty_default_def)

lemma demo_file_store: "store_of (read_data (content demo_file)) = Some demo_store"
  by (simp add: demo_file_def demo_data_def demo_store_def)

lemma out_of_range_store:
  assumes "store_of (data s) = Some st"
    and "i < 0 \<or> int (length (target_list is_daily st)) \<le> i"
  shows "toggle_task s is_daily i = Inr s" and "remove_task s is_daily i = Inr s"
proof -
  from getitem_target[OF assms(1), of is_daily] obtain xs where
    xs: "getitem_str (data s) (target_key is_daily) = Inr (PList xs)"
        "map task_of xs = map Some (target_list is_daily st)" by blast
  have "length xs = length (target_list is_daily st)" using xs(2) by (rule map_eq_imp_length_eq)
  with assms(2) have r: "i < 0 \<or> int (length xs) \<le> i" by simp
  show "toggle_task s is_daily i = Inr s" by (rule out_of_range_run(1)[OF xs(1) r])
  show "remove_task s is_daily i = Inr s" by (rule out_of_range_run(2)[OF xs(1) r])
qed

section \<open>The window on well-formed stores\<close>

lemma task_of_getitem_text:
  assumes "task_of x = Some t"
  shows "getitem_str x (py ''text'') = Inr (PStr (task_text t))"
  using assms unfolding task_of_Some by auto

lemma count_undone_tasks:
  assumes "map task_of xs = map Some ts"
  shows "count_undone xs c = Inr (c + int (length (filter (\<lambda>t. \<not> task_done t) ts)))"
  using assms
proof (induction xs arbitrary: ts c)
  case Nil
  then show ?case by simp
next
  case (Cons x xs)
  from Cons.prems obtain t ts' where ts: "ts = t # ts'" by (cases ts) auto
  with Cons.prems have hd: "task_of x = Some t" and tl: "map task_of xs = map Some ts'"
    by simp_all
  show ?case using Cons.IH[OF tl] task_of_getitem_done[OF hd] ts by simp
qed

lemma get_undone_count_store:
  assumes "store_of (data s) = Some st"
  shows "get_undone_count s =
           Inr (int (length (filter (\<lambda>t. \<not> task_done t) (daily st @ todo st))))"
proof -
  from assms obtain kvs dv tv where d: "data s = PDict kvs"
        "map_of kvs (py ''daily'') = Some (PList dv)" "map task_of dv = map Some (daily st)"
        "map_of kvs (py ''todo'') = Some (PList tv)" "map task_of tv = map Some (todo st)"
    unfolding store_of_Some by blast
  show ?thesis
    using d(1,2,4) count_undone_tasks[OF d(3)] count_undone_tasks[OF d(5)]
    by (simp add: get_undone_count_def)
qed

lemma refresh_loop_tasks:
  assumes "map task_of xs = map Some ts"
  shows "refresh_loop b xs (rows, total_c, done_c) =
           Inr (rows @ map (\<lambda>t. (b, PStr (task_text t))) ts,
                total_c + int (length ts),
                done_c + int (length (filter task_done ts)))"
  using assms
proof (induction xs arbitrary: ts rows total_c done_c)
  case Nil
  then show ?case by simp
next
  case (Cons x xs)
  from Cons.prems obtain t ts' where ts: "ts = t # ts'" by (cases ts) auto
  with Cons.prems have hd: "task_of x = Some t" and tl: "map task_of xs = map Some ts'"
    by simp_all
  show ?case
    using Cons.IH[OF tl] task_of_getitem_done[OF hd] task_of_getitem_text[OF hd] ts by simp
qed

lemma refresh_list_run:
  assumes "store_of (data (tm w)) = Some st"
  shows "refresh_list w = Inr (w\<lparr>list_widget := rows_of st,
           progress_bar := percent (int (length (filter task_done (daily st @ todo st))))
                             (int (length (daily st @ todo st))),
           neon_strip := (if int (length (filter task_done (daily st @ todo st))) =
                               int (length (daily st @ todo st)) \<and>
                             0 < int (length (daily st @ todo st))
                          then strip_green else neon_strip w)\<rparr>)"
proof -
  from assms obtain kvs dv tv where d: "data (tm w) = PDict kvs"
        "map_of kvs (py ''daily'') = Some (PList dv)" "map task_of dv = map Some (daily st)"
        "map_of kvs (py ''todo'') = Some (PList tv)" "map task_of tv = map Some (todo st)"
    unfolding store_of_Some by blast
  show ?thesis
    using d(1,2,4) refresh_loop_tasks[OF d(3)] refresh_loop_tasks[OF d(5)]
    by (simp add: refresh_list_def rows_of_def percent_def Let_def)
qed

lemma first_with_text_tasks:
  assumes "map task_of xs = map Some ts"
  shows "first_with_text op s b (PStr t) xs k =
           (if first_pos t ts < length ts then op s b (k + int (first_pos t ts)) else Inr s)"
  using assms
proof (induction xs arbitrary: ts k)
  case Nil
  then show ?case by (simp add: first_pos_def)
next
  case (Cons x xs)
  from Cons.prems obtain u ts' where ts: "ts = u # ts'" by (cases ts) auto
  with Cons.prems have hd: "task_of x = Some u" and tl: "map task_of xs = map Some ts'"
    by simp_all
  show ?case
    using Cons.IH[OF tl, of "k + 1"] task_of_getitem_text[OF hd] ts
    by (auto simp: first_pos_def ac_simps)
qed

lemma takeWhile_nth_holds:
  assumes "j < length (takeWhile P xs)"
  shows "P (xs ! j)"
proof -
  have "takeWhile P xs ! j \<in> set (takeWhile P xs)" using assms by (rule nth_mem)
  then have "P (takeWhile P xs ! j)" by (rule set_takeWhileD[THEN conjunct2])
  then show ?thesis using takeWhile_nth[OF assms] by simp
qed

lemma first_pos_le:
  assumes "k < length ts" and "task_text (ts ! k) = t"
  shows "first_pos t ts \<le> k"
proof (rule ccontr)
  assume "\<not> first_pos t ts \<le> k"
  then have "k < length (takeWhile (\<lambda>x. task_text x \<noteq> t) ts)" by (simp add: first_pos_def)
  then have "task_text (ts ! k) \<noteq> t" by (rule takeWhile_nth_holds)
  then show False using assms(2) by simp
qed

lemma first_pos_text:
  assumes "first_pos t ts < length ts"
  shows "task_text (ts ! first_pos t ts) = t"
proof -
  have "\<not> (task_text (ts ! length (takeWhile (\<lambda>x. task_text x \<noteq> t) ts)) \<noteq> t)"
    using assms unfolding first_pos_def by (rule nth_length_takeWhile)
  then show ?thesis by (simp add: first_pos_def)
qed

lemma first_pos_before:
  assumes "j < first_pos t ts"
  shows "task_text (ts ! j) \<noteq> t"
proof -
  from assms have "j < length (takeWhile (\<lambda>x. task_text x \<noteq> t) ts)"
    by (simp add: first_pos_def)
  then show ?thesis by (rule takeWhile_nth_holds)
qed

lemma demo_dock_store: "store_of (data (tm demo_dock)) = Some demo_store"
  by (simp add: demo_dock_def demo_manager_store)

lemma idle_dock_store:
  "store_of (data (tm idle_dock)) =
     Some \<lparr>last_date = py ''2026-11-03'',
           daily = [\<lparr>task_text = py ''stretch'', task_done = True\<rparr>], todo = []\<rparr>"
  by (simp add: idle_dock_def idle_data_def)

lemma busy_dock_store:
  "store_of (data (tm busy_dock)) =
     Some \<lparr>last_date = py ''2026-11-03'',
           daily = replicate 29 \<lparr>task_text = py ''a'', task_done = True\<rparr> @
                   replicate 21 \<lparr>task_text = py ''b'', task_done = False\<rparr>,
           todo = []\<rparr>"
  unfolding store_of_Some by (simp add: busy_dock_def busy_data_def)

lemma percent_29_50: "percent 29 50 = 57"
  by (simp add: percent_def true_div_def to_double_def floor_log2_def round_half_even_def
      bit_length.simps Let_def)

lemma first_op_run:
  assumes st: "store_of (data (tm w)) = Some st"
    and run: "op (tm w) b (int (first_pos t (target_list b st))) = save ((tm w)\<lparr>data := d'\<rparr>)"
    and st': "store_of d' = Some st'"
    and found: "first_pos t (target_list b st) < length (target_list b st)"
  shows "(case getitem_str (data (tm w)) (target_key b) of
            Inl e \<Rightarrow> Inl (e, w)
          | Inr target \<Rightarrow>
              (case py_iter target of
                 Inl e \<Rightarrow> Inl (e, w)
               | Inr tasks \<Rightarrow>
                   (case first_with_text op (tm w) b (PStr t) tasks 0 of
                      Inl (e, s') \<Rightarrow> Inl (e, w\<lparr>tm := s'\<rparr>)
                    | Inr s' \<Rightarrow> refresh_list (w\<lparr>tm := s'\<rparr>)))) =
         (case save ((tm w)\<lparr>data := d'\<rparr>) of
            Inl (e, s') \<Rightarrow> Inl (e, w\<lparr>tm := s'\<rparr>)
          | Inr s' \<Rightarrow> refresh_list (w\<lparr>tm := s'\<rparr>))"
proof -
  from getitem_target[OF st, of b] obtain xs where
    xs: "getitem_str (data (tm w)) (target_key b) = Inr (PList xs)"
        "map task_of xs = map Some (target_list b st)" by blast
  have f: "first_with_text op (tm w) b (PStr t) xs 0 = save ((tm w)\<lparr>data := d'\<rparr>)"
    using first_with_text_tasks[OF xs(2), of op "tm w" b t 0] found run by simp
  show ?thesis by (simp add: xs(1) f)
qed

lemma refresh_after_save:
  assumes "store_of d' = Some st'"
  shows "store_of (data (tm (state_after
           (case save (s\<lparr>data := d'\<rparr>) of
              Inl (e, s') \<Rightarrow> Inl (e, w\<lparr>tm := s'\<rparr>)
            | Inr s' \<Rightarrow> refresh_list (w\<lparr>tm := s'\<rparr>))))) = Some st'"
    and "writable (backing s) \<Longrightarrow> encodable d' \<Longrightarrow>
           \<exists>w'. (case save (s\<lparr>data := d'\<rparr>) of
                   Inl (e, s') \<Rightarrow> Inl (e, w\<lparr>tm := s'\<rparr>)
                 | Inr s' \<Rightarrow> refresh_list (w\<lparr>tm := s'\<rparr>)) = Inr w'"
proof -
  let ?ok = "(s\<lparr>data := d'\<rparr>)\<lparr>backing := \<lparr>content = Doc d', writable = True,
                                              writes = Suc (writes (backing s))\<rparr>\<rparr>"
  have r: "\<exists>w'. refresh_list (w\<lparr>tm := ?ok\<rparr>) = Inr w' \<and> tm w' = ?ok"
    using refresh_list_run[of "w\<lparr>tm := ?ok\<rparr>" st'] assms by simp
  show "store_of (data (tm (state_after
           (case save (s\<lparr>data := d'\<rparr>) of
              Inl (e, s') \<Rightarrow> Inl (e, w\<lparr>tm := s'\<rparr>)
            | Inr s' \<Rightarrow> refresh_list (w\<lparr>tm := s'\<rparr>))))) = Some st'"
    using r assms by (auto simp: save_def)
  show "\<exists>w'. (case save (s\<lparr>data := d'\<rparr>) of
                   Inl (e, s') \<Rightarrow> Inl (e, w\<lparr>tm := s'\<rparr>)
                 | Inr s' \<Rightarrow> refresh_list (w\<lparr>tm := s'\<rparr>)) = Inr w'"
    if "writable (backing s)" "encodable d'"
    using r that by (auto simp: save_def)
qed

section \<open>The double-precision operations\<close>

text \<open>
  \<open>to_double a b\<close> is a nearest double to \<open>a / b\<close>: it lies within half a unit of its last
  place, its significand has 53 bits unless the exponent is the least one, and of two
  nearest ones it is the even one. \<open>py_int\<close> is the floor of a double that is not negative.
\<close>

lemma bit_length_nonpos: "n \<le> 0 \<Longrightarrow> bit_length n = 0"
  by (subst bit_length.simps) simp

lemma bit_length_step: "0 < n \<Longrightarrow> bit_length n = bit_length (n div 2) + 1"
  by (subst bit_length.simps) simp

lemma bit_length_pos: "0 < n \<Longrightarrow> 0 < bit_length n"
proof (induction n rule: bit_length.induct)
  case (1 n)
  show ?case
  proof (cases "n div 2 \<le> 0")
    case True
    then show ?thesis using "1.prems" by (simp add: bit_length_step bit_length_nonpos)
  next
    case False
    then have "0 < bit_length (n div 2)" using "1.IH" "1.prems" by simp
    then show ?thesis using "1.prems" by (simp add: bit_length_step)
  qed
qed

lemma bit_length_bounds:
  assumes "0 < n"
  shows "2 ^ nat (bit_length n - 1) \<le> n \<and> n < 2 ^ nat (bit_length n)"
  using assms
proof (induction n rule: bit_length.induct)
  case (1 n)
  have bl: "bit_length n = bit_length (n div 2) + 1" using "1.prems" by (rule bit_length_step)
  show ?case
  proof (cases "n div 2 \<le> 0")
    case True
    with "1.prems" have n1: "n = 1" by presburger
    have "bit_length n = 1" using bl True by (simp add: bit_length_nonpos)
    with n1 show ?thesis by simp
  next
    case False
    then have pos: "0 < n div 2" by simp
    from "1.IH" "1.prems" pos have ih: "2 ^ nat (bit_length (n div 2) - 1) \<le> n div 2"
        "n div 2 < 2 ^ nat (bit_length (n div 2))" by simp_all
    have p: "0 < bit_length (n div 2)" using pos by (rule bit_length_pos)
    have e1: "(2::int) ^ nat (bit_length n - 1) = 2 * 2 ^ nat (bit_length (n div 2) - 1)"
    proof -
      have "nat (bit_length n - 1) = Suc (nat (bit_length (n div 2) - 1))" using bl p by simp
      then show ?thesis by simp
    qed
    have e2: "(2::int) ^ nat (bit_length n) = 2 * 2 ^ nat (bit_length (n div 2))"
    proof -
      have "nat (bit_length n) = Suc (nat (bit_length (n div 2)))" using bl p by simp
      then show ?thesis by simp
    qed
    have "2 * (n div 2) \<le> n" "n < 2 * (n div 2) + 2" by presburger+
    with ih e1 e2 show ?thesis by linarith
  qed
qed

lemma round_half_even_nearest:
  assumes "0 < d"
  shows "2 * \<bar>round_half_even n d * d - n\<bar> \<le> d"
proof -
  have n: "n = (n div d) * d + n mod d" by simp
  have r: "0 \<le> n mod d" "n mod d < d" using assms by simp_all
  show ?thesis
  proof (cases "2 * (n mod d) < d")
    case True
    have "round_half_even n d = n div d" using True by (simp add: round_half_even_def Let_def)
    then have "round_half_even n d * d - n = - (n mod d)" using n by (simp add: algebra_simps)
    then show ?thesis using True r by simp
  next
    case False
    show ?thesis
    proof (cases "d < 2 * (n mod d)")
      case True
      have "round_half_even n d = n div d + 1" using True False
        by (simp add: round_half_even_def Let_def)
      then have "round_half_even n d * d - n = d - n mod d"
        by (simp add: algebra_simps minus_mod_eq_mult_div[symmetric])
      then show ?thesis using True r by simp
    next
      case F2: False
      with False have tie: "2 * (n mod d) = d" by simp
      have "round_half_even n d = n div d \<or> round_half_even n d = n div d + 1"
        by (simp add: round_half_even_def Let_def)
      then have "round_half_even n d * d - n = - (n mod d) \<or>
                 round_half_even n d * d - n = d - n mod d"
        by (auto simp: algebra_simps minus_mod_eq_mult_div[symmetric])
      then show ?thesis using tie r by auto
    qed
  qed
qed

lemma powi_nat: "0 \<le> k \<Longrightarrow> (2::real) powi k = 2 ^ nat k"
  by (simp add: power_int_def)

lemma powi_neg_nat: "k < 0 \<Longrightarrow> (2::real) powi k = 1 / 2 ^ nat (- k)"
  by (simp add: power_int_def field_simps)

lemma bit_length_real:
  assumes "0 < n"
  shows "2 powi (bit_length n - 1) \<le> real_of_int n" and "real_of_int n < 2 powi (bit_length n)"
proof -
  from bit_length_bounds[OF assms] have b: "2 ^ nat (bit_length n - 1) \<le> n" "n < 2 ^ nat (bit_length n)"
    by simp_all
  have p: "0 < bit_length n" using assms by (rule bit_length_pos)
  have "real_of_int (2 ^ nat (bit_length n - 1)) \<le> real_of_int n" using b(1) by linarith
  then show "2 powi (bit_length n - 1) \<le> real_of_int n" using p by (simp add: powi_nat)
  have "real_of_int n < real_of_int (2 ^ nat (bit_length n))" using b(2) by linarith
  then show "real_of_int n < 2 powi (bit_length n)" using p by (simp add: powi_nat)
qed

lemma floor_log2_test:
  assumes "0 < a" and "0 < b"
  shows "(if 0 \<le> k then b * 2 ^ nat k \<le> a else b \<le> a * 2 ^ nat (- k)) \<longleftrightarrow>
           2 powi k \<le> real_of_int a / real_of_int b"
proof (cases "0 \<le> k")
  case True
  have "(b * 2 ^ nat k \<le> a) = (real_of_int (b * 2 ^ nat k) \<le> real_of_int a)" by linarith
  also have "\<dots> = (2 ^ nat k \<le> real_of_int a / real_of_int b)"
    using assms by (simp add: field_simps)
  finally show ?thesis using True by (simp add: powi_nat)
next
  case False
  have "(b \<le> a * 2 ^ nat (- k)) = (real_of_int b \<le> real_of_int (a * 2 ^ nat (- k)))" by linarith
  also have "\<dots> = (1 / 2 ^ nat (- k) \<le> real_of_int a / real_of_int b)"
    using assms by (simp add: field_simps)
  finally show ?thesis using False by (simp add: powi_neg_nat)
qed

lemma floor_log2_bounds:
  assumes "0 < a" and "0 < b"
  shows "2 powi (floor_log2 a b) \<le> real_of_int a / real_of_int b"
    and "real_of_int a / real_of_int b < 2 powi (floor_log2 a b + 1)"
proof -
  let ?k = "bit_length a - bit_length b"
  let ?q = "real_of_int a / real_of_int b"
  have ra: "0 < real_of_int a" "0 < real_of_int b" using assms by simp_all
  have lo: "2 powi (?k - 1) < ?q"
  proof -
    have "(2::real) powi (?k - 1) = 2 powi (bit_length a - 1) / 2 powi (bit_length b)"
      by (simp add: power_int_diff)
    also have "\<dots> \<le> real_of_int a / 2 powi (bit_length b)"
      using bit_length_real(1)[OF assms(1)] by (simp add: divide_right_mono)
    also have "\<dots> < ?q"
      using bit_length_real(2)[OF assms(2)] ra by (simp add: divide_strict_left_mono)
    finally show ?thesis .
  qed
  have hi: "?q < 2 powi (?k + 1)"
  proof -
    have "?q < 2 powi (bit_length a) / real_of_int b"
      using bit_length_real(2)[OF assms(1)] ra by (simp add: divide_strict_right_mono)
    also have "\<dots> \<le> 2 powi (bit_length a) / 2 powi (bit_length b - 1)"
      using bit_length_real(1)[OF assms(2)] ra by (simp add: divide_left_mono)
    also have "\<dots> = 2 powi (?k + 1)"
      by (simp add: power_int_diff power_int_add field_simps)
    finally show ?thesis .
  qed
  show "2 powi (floor_log2 a b) \<le> ?q"
    using floor_log2_test[OF assms, of ?k] lo by (auto simp: floor_log2_def Let_def)
  show "?q < 2 powi (floor_log2 a b + 1)"
    using floor_log2_test[OF assms, of ?k] hi by (auto simp: floor_log2_def Let_def)
qed

lemma to_double_exponent:
  assumes "a \<noteq> 0"
  shows "snd (to_double a b) = max (floor_log2 a b - 52) (- 1074)"
  using assms by (simp add: to_double_def Let_def)

lemma to_double_nearest:
  assumes "0 < a" and "0 < b"
  shows "\<bar>double_value (to_double a b) - real_of_int a / real_of_int b\<bar>
           \<le> 2 powi (snd (to_double a b)) / 2"
proof -
  define e where "e = max (floor_log2 a b - 52) (- 1074)"
  have rb: "0 < real_of_int b" using assms by simp
  show ?thesis
  proof (cases "0 \<le> e")
    case True
    define d where "d = b * 2 ^ nat e"
    define m where "m = round_half_even a d"
    have d: "0 < d" using assms by (simp add: d_def)
    have td: "to_double a b = (m, e)"
      using assms True by (simp add: to_double_def Let_def e_def m_def d_def)
    have pw: "(2::real) powi e = 2 ^ nat e" using True by (rule powi_nat)
    have rd: "real_of_int d = real_of_int b * 2 ^ nat e" by (simp add: d_def)
    have "2 * \<bar>m * d - a\<bar> \<le> d" unfolding m_def using d by (rule round_half_even_nearest)
    then have "real_of_int (2 * \<bar>m * d - a\<bar>) \<le> real_of_int d" by linarith
    then have i: "\<bar>real_of_int m * real_of_int d - real_of_int a\<bar> \<le> real_of_int d / 2" by simp
    have "real_of_int m * 2 ^ nat e - real_of_int a / real_of_int b =
            (real_of_int m * real_of_int d - real_of_int a) / real_of_int b"
      using rb by (simp add: rd field_simps)
    then have "\<bar>real_of_int m * 2 ^ nat e - real_of_int a / real_of_int b\<bar> =
            \<bar>real_of_int m * real_of_int d - real_of_int a\<bar> / real_of_int b"
      using rb by simp
    also have "\<dots> \<le> (real_of_int d / 2) / real_of_int b"
      using i rb by (intro divide_right_mono) simp_all
    also have "\<dots> = 2 ^ nat e / 2" using rb by (simp add: rd)
    finally have "\<bar>real_of_int m * 2 powi e - real_of_int a / real_of_int b\<bar> \<le> 2 powi e / 2"
      by (simp only: pw)
    then show ?thesis by (simp only: td double_value_def fst_conv snd_conv)
  next
    case False
    then have neg: "e < 0" by simp
    define s where "s = (2::int) ^ nat (- e)"
    define m where "m = round_half_even (a * s) b"
    have td: "to_double a b = (m, e)"
      using assms False by (simp add: to_double_def Let_def e_def m_def s_def)
    have pw: "(2::real) powi e = 1 / real_of_int s"
      using neg by (simp add: powi_neg_nat s_def)
    have rs: "0 < real_of_int s" by (simp add: s_def)
    have "2 * \<bar>m * b - a * s\<bar> \<le> b" unfolding m_def using assms(2) by (rule round_half_even_nearest)
    then have "real_of_int (2 * \<bar>m * b - a * s\<bar>) \<le> real_of_int b" by linarith
    then have i: "\<bar>real_of_int m * real_of_int b - real_of_int a * real_of_int s\<bar>
                    \<le> real_of_int b / 2" by simp
    have "real_of_int m * (1 / real_of_int s) - real_of_int a / real_of_int b =
            (real_of_int m * real_of_int b - real_of_int a * real_of_int s) /
              (real_of_int b * real_of_int s)"
      using rb rs by (simp add: field_simps)
    then have "\<bar>real_of_int m * (1 / real_of_int s) - real_of_int a / real_of_int b\<bar> =
            \<bar>real_of_int m * real_of_int b - real_of_int a * real_of_int s\<bar> /
              (real_of_int b * real_of_int s)"
      using rb rs by (simp add: abs_mult)
    also have "\<dots> \<le> (real_of_int b / 2) / (real_of_int b * real_of_int s)"
      using i rb rs by (intro divide_right_mono) simp_all
    also have "\<dots> = (1 / real_of_int s) / 2" using rb rs by simp
    finally have "\<bar>real_of_int m * 2 powi e - real_of_int a / real_of_int b\<bar> \<le> 2 powi e / 2"
      by (simp only: pw)
    then show ?thesis by (simp only: td double_value_def fst_conv snd_conv)
  qed
qed

lemma py_int_floor:
  assumes "0 \<le> m"
  shows "py_int (m, e) = \<lfloor>double_value (m, e)\<rfloor>"
proof (cases "0 \<le> e")
  case True
  have "double_value (m, e) = real_of_int (m * 2 ^ nat e)"
    using True by (simp add: double_value_def powi_nat)
  then have "\<lfloor>double_value (m, e)\<rfloor> = m * 2 ^ nat e" by (simp only: floor_of_int)
  then show ?thesis using True by simp
next
  case False
  have "double_value (m, e) = real_of_int m / real_of_int (2 ^ nat (- e))"
    using False by (simp add: double_value_def powi_neg_nat)
  then have "\<lfloor>double_value (m, e)\<rfloor> = m div 2 ^ nat (- e)"
    by (simp only: floor_divide_of_int_eq)
  then show ?thesis using False by simp
qed

lemma to_double_significand:
  assumes "0 < a" and "0 < b" and "- 1074 < snd (to_double a b)"
  shows "2 ^ 52 \<le> fst (to_double a b) \<and> fst (to_double a b) \<le> 2 ^ 53"
proof -
  define k where "k = floor_log2 a b"
  define e where "e = snd (to_double a b)"
  define m where "m = fst (to_double a b)"
  define q where "q = real_of_int a / real_of_int b"
  have "e = max (k - 52) (- 1074)"
    unfolding e_def k_def using assms(1) by (intro to_double_exponent) simp
  with assms(3) have ek: "e = k - 52" by (simp add: e_def)
  have pe: "0 < (2::real) powi e" by simp
  have near: "\<bar>real_of_int m * 2 powi e - q\<bar> \<le> 2 powi e / 2"
    using to_double_nearest[OF assms(1,2)] by (simp add: double_value_def m_def e_def q_def)
  have lo: "2 powi k \<le> q" and hi: "q < 2 powi (k + 1)"
    using floor_log2_bounds[OF assms(1,2)] by (simp_all add: k_def q_def)
  have k52: "(2::real) powi k = 2 ^ 52 * 2 powi e" and k53: "(2::real) powi (k + 1) = 2 ^ 53 * 2 powi e"
    by (simp_all add: ek power_int_diff power_int_add)
  define p where "p = (2::real) powi e"
  have pp: "0 < p" by (simp add: p_def)
  have near': "\<bar>real_of_int m * p - q\<bar> \<le> p / 2" using near by (simp only: p_def)
  have lo': "2 ^ 52 * p \<le> q" using lo by (simp only: k52 p_def)
  have hi': "q < 2 ^ 53 * p" using hi by (simp only: k53 p_def)
  have "(2 ^ 52 - 1 / 2) * p = 2 ^ 52 * p - p / 2" by (simp add: left_diff_distrib)
  also have "\<dots> \<le> real_of_int m * p" using near' lo' by linarith
  finally have "2 ^ 52 - 1 / 2 \<le> real_of_int m" using pp by (simp only: mult_le_cancel_right_pos)
  then have "real_of_int (2 ^ 52 - 1) < real_of_int m" by simp
  then have "2 ^ 52 - 1 < m" by (simp only: of_int_less_iff)
  then have m1: "2 ^ 52 \<le> m" by simp
  have "real_of_int m * p < 2 ^ 53 * p + p / 2" using near' hi' by linarith
  also have "\<dots> = (2 ^ 53 + 1 / 2) * p" by (simp add: distrib_right)
  finally have "real_of_int m < 2 ^ 53 + 1 / 2" using pp by (simp only: mult_less_cancel_right_pos)
  then have "real_of_int m < real_of_int (2 ^ 53 + 1)" by simp
  then have "m < 2 ^ 53 + 1" by (simp only: of_int_less_iff)
  then have m2: "m \<le> 2 ^ 53" by simp
  from m1 m2 show ?thesis by (simp add: m_def)
qed

lemma round_half_even_tie:
  assumes "0 < d" and "2 * (n mod d) = d"
  shows "even (round_half_even n d)"
  using assms by (simp add: round_half_even_def Let_def)

section \<open>The claims\<close>




text \<open>
  C2, as the claim states it, fails: where the file cannot be read and cannot be opened
  for writing either (a directory at its path, say), or is missing where none can be
  made, the read error is swallowed but \<open>load\<close> raises from the \<^verbatim>\<open>save\<close> of the reset step.
\<close>

theorem load_raises_counterexample:
  "load \<lparr>content = Unreadable, writable = False, writes = 0\<rparr> ''2026-11-03'' =
     Inl (OSError, \<lparr>content = Unreadable, writable = False, writes = 0\<rparr>) \<and>
   load \<lparr>content = Missing, writable = False, writes = 0\<rparr> ''2026-11-03'' =
     Inl (OSError, \<lparr>content = Missing, writable = False, writes = 0\<rparr>)"
  by (simp add: load_def empty_default_def reset_loop_def save_def Let_def)

text \<open>
  C2, amended. When the backing file is missing, or is there but cannot be read and
  parsed, \<open>load\<close> goes on from the empty default: it dates it and saves it. So \<open>load\<close>
  returns, with the dated default in memory and in the file, when the file can be
  opened for writing, and raises from \<^verbatim>\<open>save\<close>, the file as it was, when it cannot. (For
  an empty \<open>today\<close>, which \<^verbatim>\<open>strftime\<close> never gives, the default is returned as it is.)
\<close>

theorem load_recovers_default:
  assumes "content b = Missing \<or> content b = Unreadable"
  shows "load b today =
           (if today = [] then Inr \<lparr>data = empty_default, backing = b\<rparr>
            else if writable b then
              Inr \<lparr>data = PDict [(py ''last_date'', PStr (py today)),
                                (py ''daily'', PList []), (py ''todo'', PList [])],
                   backing = \<lparr>content = Doc (PDict [(py ''last_date'', PStr (py today)),
                                (py ''daily'', PList []), (py ''todo'', PList [])]),
                              writable = True, writes = Suc (writes b)\<rparr>\<rparr>
            else Inl (OSError, b))"
proof -
  have r: "read_data (content b) = empty_default" using assms by auto
  show ?thesis
    by (simp add: load_def r empty_default_def reset_loop_def save_def Let_def)
qed

theorem load_recovers_default_witness:
  "load \<lparr>content = Missing, writable = True, writes = 0\<rparr> ''2026-11-03'' =
     Inr \<lparr>data = PDict [(py ''last_date'', PStr (py ''2026-11-03'')),
                       (py ''daily'', PList []), (py ''todo'', PList [])],
          backing = \<lparr>content = Doc (PDict [(py ''last_date'', PStr (py ''2026-11-03'')),
                       (py ''daily'', PList []), (py ''todo'', PList [])]),
                     writable = True, writes = 1\<rparr>\<rparr> \<and>
   load \<lparr>content = Unreadable, writable = False, writes = 3\<rparr> ''2026-11-03'' =
     Inl (OSError, \<lparr>content = Unreadable, writable = False, writes = 3\<rparr>)"
  using load_recovers_default[of "\<lparr>content = Missing, writable = True, writes = 0\<rparr>" "''2026-11-03''"]
    load_recovers_default[of "\<lparr>content = Unreadable, writable = False, writes = 3\<rparr>"
      "''2026-11-03''"]
  by simp

text \<open>
  C3. On a well-formed store, for every text and every flag, the store that \<open>add_task\<close>
  leaves (also when its \<^verbatim>\<open>save\<close> raises) is the old one with the record of that text,
  not done, put after the last entry of the daily list when the flag is set and of the
  todo list otherwise; the entries that were there, their order, the other list and
  the date stay. \<open>add_task\<close> returns when the file can be opened for writing and the
  strings of the data and the text can be encoded.
\<close>

theorem add_task_appends:
  assumes "store_of (data s) = Some st"
  shows "store_of (data (state_after (add_task s txt is_daily))) = Some
           (if is_daily then st\<lparr>daily := daily st @ [\<lparr>task_text = txt, task_done = False\<rparr>]\<rparr>
            else st\<lparr>todo := todo st @ [\<lparr>task_text = txt, task_done = False\<rparr>]\<rparr>) \<and>
         (writable (backing s) \<and> encodable (data s) \<and> str_encodable txt \<longrightarrow>
            (\<exists>s'. add_task s txt is_daily = Inr s'))"
proof -
  from add_task_run[OF assms, of "txt" is_daily] obtain d' where
    d': "add_task s txt is_daily = save (s\<lparr>data := d'\<rparr>)"
        "store_of d' = Some (with_target is_daily
           (target_list is_daily st @ [\<lparr>task_text = txt, task_done = False\<rparr>]) st)"
    by blast
  have dd: "data (state_after (add_task s txt is_daily)) = d'" by (simp add: d'(1) save_data)
  have one: "store_of (data (state_after (add_task s txt is_daily))) = Some
          (if is_daily then st\<lparr>daily := daily st @ [\<lparr>task_text = txt, task_done = False\<rparr>]\<rparr>
           else st\<lparr>todo := todo st @ [\<lparr>task_text = txt, task_done = False\<rparr>]\<rparr>)"
    using d'(2) by (simp add: dd with_target_def target_list_def)
  have two: "\<exists>s'. add_task s txt is_daily = Inr s'"
    if "writable (backing s)" "encodable (data s)" "str_encodable txt"
  proof -
    have "encodable d'" using add_task_encodable[OF that(2,3), of is_daily] by (simp only: dd)
    then show ?thesis using that(1) by (simp add: d'(1) save_def)
  qed
  from one two show ?thesis by blast
qed

theorem add_task_appends_witness:
  "store_of (data demo_manager) = Some demo_store \<and>
   writable (backing demo_manager) \<and> encodable (data demo_manager) \<and>
   str_encodable (py ''tea'') \<and>
   store_of (data (state_after (add_task demo_manager (py ''tea'') False))) = Some
     (demo_store\<lparr>todo := todo demo_store @ [\<lparr>task_text = py ''tea'', task_done = False\<rparr>]\<rparr>) \<and>
   (\<exists>s'. add_task demo_manager (py ''tea'') False = Inr s')"
proof -
  have w: "writable (backing demo_manager)" "encodable (data demo_manager)"
    by (simp_all add: demo_manager_def demo_data_def)
  from add_task_appends[OF demo_manager_store, of "py ''tea''" False] w demo_manager_store
  show ?thesis by simp
qed

text \<open>
  C4. On a well-formed store and for an index within the targeted list, the store
  that \<open>toggle_task\<close> leaves (also when its \<^verbatim>\<open>save\<close> raises) differs from the old one in
  the targeted list at that index only, where the entry has the same text and the
  negated done flag. \<open>toggle_task\<close> returns when the file can be opened for writing and
  the strings of the data can be encoded.
\<close>

theorem toggle_task_flips:
  assumes "store_of (data s) = Some st"
    and "0 \<le> i" and "i < int (length (target_list is_daily st))"
  shows "store_of (data (state_after (toggle_task s is_daily i))) = Some (with_target is_daily
           ((target_list is_daily st)[nat i := (target_list is_daily st ! nat i)
              \<lparr>task_done := \<not> task_done (target_list is_daily st ! nat i)\<rparr>]) st) \<and>
         (writable (backing s) \<and> encodable (data s) \<longrightarrow>
            (\<exists>s'. toggle_task s is_daily i = Inr s'))"
proof -
  from toggle_task_run[OF assms] obtain d' where
    d': "toggle_task s is_daily i = save (s\<lparr>data := d'\<rparr>)"
        "store_of d' = Some (with_target is_daily
           ((target_list is_daily st)[nat i := (target_list is_daily st ! nat i)
              \<lparr>task_done := \<not> task_done (target_list is_daily st ! nat i)\<rparr>]) st)"
    by blast
  have dd: "data (state_after (toggle_task s is_daily i)) = d'" by (simp add: d'(1) save_data)
  have two: "\<exists>s'. toggle_task s is_daily i = Inr s'"
    if "writable (backing s)" "encodable (data s)"
  proof -
    have "encodable d'" using toggle_task_encodable[OF that(2), of is_daily i] by (simp only: dd)
    then show ?thesis using that(1) by (simp add: d'(1) save_def)
  qed
  from d'(2) two show ?thesis by (simp only: dd) blast
qed

theorem toggle_task_flips_witness:
  "store_of (data demo_manager) = Some demo_store \<and> (0::int) \<le> 1 \<and>
   1 < int (length (target_list False demo_store)) \<and>
   writable (backing demo_manager) \<and> encodable (data demo_manager) \<and>
   store_of (data (state_after (toggle_task demo_manager False 1))) = Some (demo_store\<lparr>todo :=
     [\<lparr>task_text = py ''mail'', task_done = False\<rparr>,
      \<lparr>task_text = py ''mail'', task_done = True\<rparr>]\<rparr>) \<and>
   (\<exists>s'. toggle_task demo_manager False 1 = Inr s')"
proof -
  have r: "1 < int (length (target_list False demo_store))"
    by (simp add: target_list_def demo_store_def)
  have w: "writable (backing demo_manager)" "encodable (data demo_manager)"
    by (simp_all add: demo_manager_def demo_data_def)
  from toggle_task_flips[OF demo_manager_store _ r] r w demo_manager_store show ?thesis
    by (simp add: target_list_def with_target_def demo_store_def)
qed




text \<open>
  C6, as the claim states it, fails: a backing file that holds the JSON document
  \<^verbatim>\<open>{}\<close> is loaded into a dict with the date and no list, and one that holds \<^verbatim>\<open>[]\<close>
  makes \<open>load\<close> raise.
\<close>

theorem load_any_shape_counterexample:
  "load \<lparr>content = Doc (PDict []), writable = True, writes = 0\<rparr> ''2026-11-03'' =
     Inr \<lparr>data = PDict [(py ''last_date'', PStr (py ''2026-11-03''))],
          backing = \<lparr>content = Doc (PDict [(py ''last_date'', PStr (py ''2026-11-03''))]),
                     writable = True, writes = 1\<rparr>\<rparr> \<and>
   \<not> well_formed (PDict [(py ''last_date'', PStr (py ''2026-11-03''))]) \<and>
   load \<lparr>content = Doc (PList []), writable = True, writes = 0\<rparr> ''2026-11-03'' =
     Inl (AttributeError, \<lparr>content = Doc (PList []), writable = True, writes = 0\<rparr>)"
  by (simp add: load_def reset_loop_def save_def well_formed_def Let_def)

text \<open>
  C6, amended. The default that \<open>load\<close> takes for a missing or unreadable file is well
  formed; when what \<open>load\<close> reads is well formed, the data \<open>load\<close> returns with is well
  formed; and from well-formed data \<open>add_task\<close>, \<open>toggle_task\<close> and \<open>remove_task\<close> leave
  well-formed data, whatever the text, the flag and the index, also when their \<^verbatim>\<open>save\<close>
  raises. \<open>load\<close> and the three methods return when the file can be opened for writing
  and the strings of the data and of the text can be encoded.
\<close>

theorem well_formed_kept:
  "well_formed (read_data Missing) \<and> well_formed (read_data Unreadable) \<and>
   (well_formed (read_data (content b)) \<longrightarrow>
      (\<forall>s'. load b today = Inr s' \<longrightarrow> well_formed (data s')) \<and>
      (writable b \<and> encodable (read_data (content b)) \<longrightarrow> (\<exists>s'. load b today = Inr s'))) \<and>
   (well_formed (data s) \<longrightarrow>
      well_formed (data (state_after (add_task s txt is_daily))) \<and>
      well_formed (data (state_after (toggle_task s is_daily i))) \<and>
      well_formed (data (state_after (remove_task s is_daily i))) \<and>
      (writable (backing s) \<and> encodable (data s) \<and> str_encodable txt \<longrightarrow>
         (\<exists>s'. add_task s txt is_daily = Inr s') \<and>
         (\<exists>s'. toggle_task s is_daily i = Inr s') \<and>
         (\<exists>s'. remove_task s is_daily i = Inr s')))"
proof -
  have dflt: "well_formed (read_data Missing)" "well_formed (read_data Unreadable)"
    by (simp_all add: well_formed_def store_of_empty_default)
  have ld: "(\<forall>s'. load b today = Inr s' \<longrightarrow> well_formed (data s')) \<and>
      (writable b \<and> encodable (read_data (content b)) \<longrightarrow> (\<exists>s'. load b today = Inr s'))"
    if "well_formed (read_data (content b))"
  proof -
    from that obtain st where st: "store_of (read_data (content b)) = Some st"
      by (auto simp: well_formed_def)
    show ?thesis
    proof (cases "last_date st = py today")
      case True
      from load_same_run[OF st True] that show ?thesis by simp
    next
      case False
      from load_reset_run[OF st False] obtain d' where
        d': "store_of d' = Some (st\<lparr>last_date := py today,
               daily := map (\<lambda>t. t\<lparr>task_done := False\<rparr>) (daily st)\<rparr>)"
            "encodable (read_data (content b)) \<longrightarrow> encodable d'"
            "load b today = (case save \<lparr>data = d', backing = b\<rparr> of
                               Inl (e, s) \<Rightarrow> Inl (e, backing s) | Inr s \<Rightarrow> Inr s)" by blast
      have wf: "well_formed d'" using d'(1) by (simp add: well_formed_def)
      have one: "\<forall>s'. load b today = Inr s' \<longrightarrow> well_formed (data s')"
        using wf by (auto simp: d'(3) save_def split: if_splits)
      have two: "writable b \<and> encodable (read_data (content b)) \<longrightarrow> (\<exists>s'. load b today = Inr s')"
        using d'(2) by (auto simp: d'(3) save_def)
      from one two show ?thesis by blast
    qed
  qed
  have ops: "well_formed (data (state_after (add_task s txt is_daily))) \<and>
      well_formed (data (state_after (toggle_task s is_daily i))) \<and>
      well_formed (data (state_after (remove_task s is_daily i))) \<and>
      (writable (backing s) \<and> encodable (data s) \<and> str_encodable txt \<longrightarrow>
         (\<exists>s'. add_task s txt is_daily = Inr s') \<and>
         (\<exists>s'. toggle_task s is_daily i = Inr s') \<and>
         (\<exists>s'. remove_task s is_daily i = Inr s'))"
    if wf: "well_formed (data s)"
  proof -
    from wf obtain st where st: "store_of (data s) = Some st"
      by (auto simp: well_formed_def)
    have ret: "\<exists>s'. x = Inr s'"
      if "saved_or_raised (backing s) x \<or> x = Inr s" "writable (backing s)"
        "encodable (data (state_after x))" for x
      using that by (auto simp: saved_or_raised_def Let_def)
    from add_task_run[OF st, of "txt" is_daily] obtain d' where
      a: "add_task s txt is_daily = save (s\<lparr>data := d'\<rparr>)" "well_formed d'"
      by (auto simp: well_formed_def)
    have a1: "well_formed (data (state_after (add_task s txt is_daily)))"
      using a by (simp add: save_data)
    have a2: "saved_or_raised (backing s) (add_task s txt is_daily)"
      by (simp only: a(1) save_saved_or_raised)
    have tr: "well_formed (data (state_after (toggle_task s is_daily i))) \<and>
        well_formed (data (state_after (remove_task s is_daily i))) \<and>
        (saved_or_raised (backing s) (toggle_task s is_daily i) \<or> toggle_task s is_daily i = Inr s) \<and>
        (saved_or_raised (backing s) (remove_task s is_daily i) \<or> remove_task s is_daily i = Inr s)"
    proof (cases "0 \<le> i \<and> i < int (length (target_list is_daily st))")
      case True
      then have r: "0 \<le> i" "i < int (length (target_list is_daily st))" by simp_all
      from toggle_task_run[OF st r] obtain d1 where
        t: "toggle_task s is_daily i = save (s\<lparr>data := d1\<rparr>)" "well_formed d1"
        by (auto simp: well_formed_def)
      from remove_task_run[OF st r] obtain d2 where
        m: "remove_task s is_daily i = save (s\<lparr>data := d2\<rparr>)" "well_formed d2"
        by (auto simp: well_formed_def)
      show ?thesis using t(2) m(2)
        by (simp add: t(1) m(1) save_data save_saved_or_raised)
    next
      case False
      then have r: "i < 0 \<or> int (length (target_list is_daily st)) \<le> i" by linarith
      from out_of_range_store[OF st r] wf show ?thesis by simp
    qed
    have rets: "(\<exists>s'. add_task s txt is_daily = Inr s') \<and>
         (\<exists>s'. toggle_task s is_daily i = Inr s') \<and>
         (\<exists>s'. remove_task s is_daily i = Inr s')"
      if c: "writable (backing s)" "encodable (data s)" "str_encodable txt"
    proof -
      have "\<exists>s'. add_task s txt is_daily = Inr s'"
        using a2 c(1) add_task_encodable[OF c(2,3)] by (intro ret) simp_all
      moreover have "\<exists>s'. toggle_task s is_daily i = Inr s'"
        using tr c(1) toggle_task_encodable[OF c(2)] by (intro ret) simp_all
      moreover have "\<exists>s'. remove_task s is_daily i = Inr s'"
        using tr c(1) remove_task_encodable[OF c(2)] by (intro ret) simp_all
      ultimately show ?thesis by blast
    qed
    from a1 tr rets show ?thesis by blast
  qed
  from dflt ld ops show ?thesis by blast
qed

theorem well_formed_kept_witness:
  "well_formed (read_data (content demo_file)) \<and> well_formed (data demo_manager) \<and>
   writable demo_file \<and> encodable (read_data (content demo_file)) \<and>
   writable (backing demo_manager) \<and> encodable (data demo_manager) \<and>
   str_encodable (py ''tea'') \<and>
   (\<exists>s'. load demo_file ''2026-11-03'' = Inr s' \<and> well_formed (data s')) \<and>
   (\<exists>s'. add_task demo_manager (py ''tea'') True = Inr s' \<and> well_formed (data s')) \<and>
   (\<exists>s'. toggle_task demo_manager True 7 = Inr s' \<and> well_formed (data s')) \<and>
   (\<exists>s'. remove_task demo_manager True 7 = Inr s' \<and> well_formed (data s'))"
proof -
  have w: "well_formed (read_data (content demo_file))" "well_formed (data demo_manager)"
    by (simp_all add: well_formed_def demo_file_store demo_manager_store)
  have e: "writable demo_file" "encodable (read_data (content demo_file))"
      "writable (backing demo_manager)" "encodable (data demo_manager)"
    by (simp_all add: demo_manager_def demo_file_def demo_data_def)
  have k: "(\<exists>s'. x = Inr s' \<and> well_formed (data s'))"
    if "\<exists>s'. x = Inr s'" "well_formed (data (state_after x))" for x :: "task_manager raising"
    using that by auto
  note m = well_formed_kept[of demo_file "''2026-11-03''" demo_manager "py ''tea''" True 7]
  have "\<exists>s'. load demo_file ''2026-11-03'' = Inr s' \<and> well_formed (data s')"
    using m w e by blast
  moreover have "\<exists>s'. add_task demo_manager (py ''tea'') True = Inr s' \<and> well_formed (data s')"
    using m w e by (intro k) simp_all
  moreover have "\<exists>s'. toggle_task demo_manager True 7 = Inr s' \<and> well_formed (data s')"
    using m w e by (intro k) simp_all
  moreover have "\<exists>s'. remove_task demo_manager True 7 = Inr s' \<and> well_formed (data s')"
    using m w e by (intro k) simp_all
  ultimately show ?thesis using w e by simp
qed

text \<open>
  C7. With fifty tasks of which twenty-nine are done, \<open>refresh_list\<close> sets the progress
  bar to 57, while one hundred times twenty-nine, divided by fifty, is 58. The quotient
  \<^verbatim>\<open>done_c/total\<close> is the double \<open>5224175567749775 / 2 ^ 53\<close>, just below 0.58; its
  product with 100 is the double \<open>8162774324609023 / 2 ^ 47\<close>, just below 58; \<^verbatim>\<open>int\<close>
  cuts it to 57.
\<close>

theorem progress_of_29_in_50:
  "(case refresh_list busy_dock of Inl e \<Rightarrow> None | Inr w' \<Rightarrow> Some (progress_bar w')) = Some 57 \<and>
   true_div 29 50 = (5224175567749775, - 53) \<and>
   float_mul (5224175567749775, - 53) 100 = (8162774324609023, - 47) \<and>
   py_int (8162774324609023, - 47) = 57 \<and>
   (100 * 29) div 50 = (58::int)"
proof -
  have "(case refresh_list busy_dock of Inl e \<Rightarrow> None | Inr w' \<Rightarrow> Some (progress_bar w')) = Some 57"
    using refresh_list_run[OF busy_dock_store] percent_29_50 by simp
  moreover have "true_div 29 50 = (5224175567749775, - 53)"
    by (simp add: true_div_def to_double_def floor_log2_def round_half_even_def
        bit_length.simps Let_def)
  moreover have "float_mul (5224175567749775, - 53) 100 = (8162774324609023, - 47)"
    by (simp add: to_double_def floor_log2_def round_half_even_def bit_length.simps Let_def)
  moreover have "py_int (8162774324609023, - 47) = 57" by simp
  ultimately show ?thesis by simp
qed

text \<open>
  C8. On a well-formed store, with \<open>n\<close> the number of entries of both lists that are
  not done: if \<open>n\<close> is positive, \<open>check_reminders\<close> shows one tray message, which carries
  \<open>n\<close>, and turns the handle strip red; if \<open>n\<close> is zero it changes nothing, so no message
  is shown and the strip keeps its colour.
\<close>

theorem check_reminders_notifies:
  assumes "store_of (data (tm w)) = Some st"
  shows "check_reminders w =
           Inr (let n = int (length (filter (\<lambda>t. \<not> task_done t) (daily st @ todo st)))
                in if 0 < n then w\<lparr>tray := tray w @ [Reminder n], neon_strip := strip_red\<rparr>
                   else w)"
  using get_undone_count_store[OF assms] by (simp add: check_reminders_def Let_def)

theorem check_reminders_notifies_witness:
  "store_of (data (tm demo_dock)) = Some demo_store \<and>
   check_reminders demo_dock = Inr (demo_dock\<lparr>tray := [Reminder 2], neon_strip := strip_red\<rparr>) \<and>
   store_of (data (tm idle_dock)) =
     Some \<lparr>last_date = py ''2026-11-03'',
           daily = [\<lparr>task_text = py ''stretch'', task_done = True\<rparr>], todo = []\<rparr> \<and>
   check_reminders idle_dock = Inr idle_dock"
proof -
  have t: "tray demo_dock = []" by (simp add: demo_dock_def)
  from check_reminders_notifies[OF demo_dock_store] check_reminders_notifies[OF idle_dock_store]
    demo_dock_store idle_dock_store t
  show ?thesis by (simp add: demo_store_def)
qed

text \<open>
  C9. Where the targeted list is a list and the index is negative or not below its
  length, \<open>toggle_task\<close> and \<open>remove_task\<close> return the task manager as it was: the data
  is the same and the backing file has the same content and was not written.
\<close>

theorem out_of_range_is_noop:
  assumes "getitem_str (data s) (target_key is_daily) = Inr (PList xs)"
    and "i < 0 \<or> int (length xs) \<le> i"
  shows "toggle_task s is_daily i = Inr s \<and> remove_task s is_daily i = Inr s"
  using out_of_range_run[OF assms] by simp

theorem out_of_range_is_noop_witness:
  "getitem_str (data demo_manager) (target_key True) =
     Inr (PList [PDict [(py ''text'', PStr (py ''stretch'')), (py ''done'', PBool True)]]) \<and>
   toggle_task demo_manager True 1 = Inr demo_manager \<and>
   remove_task demo_manager True (- 1) = Inr demo_manager \<and>
   toggle_task demo_manager True (- 1) = Inr demo_manager \<and>
   remove_task demo_manager True 1 = Inr demo_manager"
proof -
  have g: "getitem_str (data demo_manager) (target_key True) =
     Inr (PList [PDict [(py ''text'', PStr (py ''stretch'')), (py ''done'', PBool True)]])"
    by (simp add: demo_manager_def demo_data_def target_key_def)
  from out_of_range_is_noop[OF g, of 1] out_of_range_is_noop[OF g, of "- 1"] g
  show ?thesis by simp
qed

text \<open>
  C10. On a well-formed store, take the row that shows entry \<open>k\<close> of a list; the data
  that \<open>refresh_list\<close> stores in it are the list's flag and the entry's text. With \<open>p\<close>
  the position of the first entry of that list with that text: \<open>p\<close> is at most \<open>k\<close>, no
  entry before \<open>p\<close> has the text, a click on the row toggles entry \<open>p\<close>, and the delete
  action of its context menu removes entry \<open>p\<close>, in the data that the handler leaves in
  memory, also when its \<^verbatim>\<open>save\<close> raises. Both handlers return when the file can be
  opened for writing and the strings of the data can be encoded.
\<close>

theorem row_resolves_to_first_text:
  assumes "store_of (data (tm w)) = Some st" and "k < length (target_list b st)"
  shows "let ts = target_list b st; t = task_text (ts ! k); p = first_pos t ts in
           p \<le> k \<and> task_text (ts ! p) = t \<and> (\<forall>j<p. task_text (ts ! j) \<noteq> t) \<and>
           (\<exists>w'. refresh_list w = Inr w' \<and>
              list_widget w' ! (if b then k else length (daily st) + k) = (b, PStr t)) \<and>
           store_of (data (tm (state_after (on_item_clicked w (b, PStr t))))) =
             Some (with_target b (ts[p := (ts ! p)\<lparr>task_done := \<not> task_done (ts ! p)\<rparr>]) st) \<and>
           store_of (data (tm (state_after (show_context_menu w (Some (b, PStr t)) True)))) =
             Some (with_target b (take p ts @ drop (Suc p) ts) st) \<and>
           (writable (backing (tm w)) \<and> encodable (data (tm w)) \<longrightarrow>
              (\<exists>w'. on_item_clicked w (b, PStr t) = Inr w') \<and>
              (\<exists>w'. show_context_menu w (Some (b, PStr t)) True = Inr w'))"
proof -
  let ?ts = "target_list b st"
  let ?t = "task_text (?ts ! k)"
  let ?p = "first_pos ?t ?ts"
  have le: "?p \<le> k" using assms(2) by (intro first_pos_le) simp_all
  then have found: "?p < length ?ts" using assms(2) by simp
  have same: "task_text (?ts ! ?p) = ?t" using found by (rule first_pos_text)
  have before: "\<forall>j<?p. task_text (?ts ! j) \<noteq> ?t" using first_pos_before by blast
  have rows: "\<exists>w'. refresh_list w = Inr w' \<and>
              list_widget w' ! (if b then k else length (daily st) + k) = (b, PStr ?t)"
  proof (cases b)
    case True
    then show ?thesis using refresh_list_run[OF assms(1)] assms(2)
      by (simp add: rows_of_def target_list_def nth_append)
  next
    case False
    then show ?thesis using refresh_list_run[OF assms(1)] assms(2)
      by (simp add: rows_of_def target_list_def nth_append)
  qed
  have r: "0 \<le> int ?p" "int ?p < int (length ?ts)" using found by simp_all
  from toggle_task_run[OF assms(1) r] obtain d1 where
    d1: "toggle_task (tm w) b (int ?p) = save ((tm w)\<lparr>data := d1\<rparr>)"
        "store_of d1 = Some (with_target b
           (?ts[?p := (?ts ! ?p)\<lparr>task_done := \<not> task_done (?ts ! ?p)\<rparr>]) st)" by auto
  from remove_task_run[OF assms(1) r] obtain d2 where
    d2: "remove_task (tm w) b (int ?p) = save ((tm w)\<lparr>data := d2\<rparr>)"
        "store_of d2 = Some (with_target b (take ?p ?ts @ drop (Suc ?p) ?ts) st)" by auto
  have c: "on_item_clicked w (b, PStr ?t) =
      (case save ((tm w)\<lparr>data := d1\<rparr>) of
         Inl (e, s') \<Rightarrow> Inl (e, w\<lparr>tm := s'\<rparr>)
       | Inr s' \<Rightarrow> refresh_list (w\<lparr>tm := s'\<rparr>))"
    using first_op_run[where op = toggle_task, OF assms(1) d1 found]
    by (simp only: on_item_clicked_def fst_conv snd_conv)
  have m: "show_context_menu w (Some (b, PStr ?t)) True =
      (case save ((tm w)\<lparr>data := d2\<rparr>) of
         Inl (e, s') \<Rightarrow> Inl (e, w\<lparr>tm := s'\<rparr>)
       | Inr s' \<Rightarrow> refresh_list (w\<lparr>tm := s'\<rparr>))"
    using first_op_run[where op = remove_task, OF assms(1) d2 found]
    by (simp only: show_context_menu_def option.case if_True fst_conv snd_conv)
  have click: "store_of (data (tm (state_after (on_item_clicked w (b, PStr ?t))))) =
      Some (with_target b (?ts[?p := (?ts ! ?p)\<lparr>task_done := \<not> task_done (?ts ! ?p)\<rparr>]) st)"
    by (simp only: c refresh_after_save(1)[OF d1(2)])
  have del: "store_of (data (tm (state_after (show_context_menu w (Some (b, PStr ?t)) True)))) =
      Some (with_target b (take ?p ?ts @ drop (Suc ?p) ?ts) st)"
    by (simp only: m refresh_after_save(1)[OF d2(2)])
  have ret: "(\<exists>w'. on_item_clicked w (b, PStr ?t) = Inr w') \<and>
      (\<exists>w'. show_context_menu w (Some (b, PStr ?t)) True = Inr w')"
    if wr: "writable (backing (tm w))" and en: "encodable (data (tm w))"
  proof -
    have e1: "encodable d1"
      using toggle_task_encodable[OF en, of b "int ?p"] by (simp add: d1(1) save_data)
    have e2: "encodable d2"
      using remove_task_encodable[OF en, of b "int ?p"] by (simp add: d2(1) save_data)
    from refresh_after_save(2)[OF d1(2) wr e1] refresh_after_save(2)[OF d2(2) wr e2]
    show ?thesis by (simp only: c m)
  qed
  from le same before rows click del ret show ?thesis by (simp add: Let_def)
qed

theorem row_resolves_to_first_text_witness:
  "store_of (data (tm demo_dock)) = Some demo_store \<and>
   1 < length (target_list False demo_store) \<and>
   writable (backing (tm demo_dock)) \<and> encodable (data (tm demo_dock)) \<and>
   task_text (target_list False demo_store ! 1) = py ''mail'' \<and>
   first_pos (py ''mail'') (target_list False demo_store) = 0 \<and>
   (\<exists>w'. refresh_list demo_dock = Inr w' \<and> list_widget w' ! 2 = (False, PStr (py ''mail''))) \<and>
   (\<exists>w'. on_item_clicked demo_dock (False, PStr (py ''mail'')) = Inr w' \<and>
      store_of (data (tm w')) = Some (demo_store\<lparr>todo :=
        [\<lparr>task_text = py ''mail'', task_done = True\<rparr>,
         \<lparr>task_text = py ''mail'', task_done = False\<rparr>]\<rparr>)) \<and>
   (\<exists>w'. show_context_menu demo_dock (Some (False, PStr (py ''mail''))) True = Inr w' \<and>
      store_of (data (tm w')) = Some (demo_store\<lparr>todo :=
        [\<lparr>task_text = py ''mail'', task_done = False\<rparr>]\<rparr>))"
proof -
  have k: "1 < length (target_list False demo_store)"
    by (simp add: target_list_def demo_store_def)
  have t: "task_text (target_list False demo_store ! 1) = py ''mail''"
    by (simp add: target_list_def demo_store_def)
  have p: "first_pos (py ''mail'') (target_list False demo_store) = 0"
    by (simp add: first_pos_def target_list_def demo_store_def)
  have ts: "target_list False demo_store =
      [\<lparr>task_text = py ''mail'', task_done = False\<rparr>,
       \<lparr>task_text = py ''mail'', task_done = False\<rparr>]"
    by (simp add: target_list_def demo_store_def)
  have n: "length (daily demo_store) = 1" by (simp add: demo_store_def)
  have e: "writable (backing (tm demo_dock))" "encodable (data (tm demo_dock))"
    by (simp_all add: demo_dock_def demo_manager_def demo_file_def demo_data_def)
  have j: "\<exists>w'. x = Inr w' \<and> store_of (data (tm w')) = Some y"
    if "\<exists>w'. x = Inr w'" "store_of (data (tm (state_after x))) = Some y"
    for x :: "fancy_dock raising" and y
    using that by auto
  from row_resolves_to_first_text[OF demo_dock_store k] t p e
  have f: "(\<exists>w'. refresh_list demo_dock = Inr w' \<and> list_widget w' ! 2 = (False, PStr (py ''mail''))) \<and>
     store_of (data (tm (state_after (on_item_clicked demo_dock (False, PStr (py ''mail'')))))) =
       Some (demo_store\<lparr>todo :=
        [\<lparr>task_text = py ''mail'', task_done = True\<rparr>,
         \<lparr>task_text = py ''mail'', task_done = False\<rparr>]\<rparr>) \<and>
     store_of (data (tm (state_after
          (show_context_menu demo_dock (Some (False, PStr (py ''mail''))) True)))) =
       Some (demo_store\<lparr>todo := [\<lparr>task_text = py ''mail'', task_done = False\<rparr>]\<rparr>) \<and>
     (\<exists>w'. on_item_clicked demo_dock (False, PStr (py ''mail'')) = Inr w') \<and>
     (\<exists>w'. show_context_menu demo_dock (Some (False, PStr (py ''mail''))) True = Inr w')"
    by (simp add: Let_def ts n with_target_def eval_nat_numeral)
  have c: "\<exists>w'. on_item_clicked demo_dock (False, PStr (py ''mail'')) = Inr w' \<and>
      store_of (data (tm w')) = Some (demo_store\<lparr>todo :=
        [\<lparr>task_text = py ''mail'', task_done = True\<rparr>,
         \<lparr>task_text = py ''mail'', task_done = False\<rparr>]\<rparr>)"
    using f by (intro j) simp_all
  have m: "\<exists>w'. show_context_menu demo_dock (Some (False, PStr (py ''mail''))) True = Inr w' \<and>
      store_of (data (tm w')) = Some (demo_store\<lparr>todo :=
        [\<lparr>task_text = py ''mail'', task_done = False\<rparr>]\<rparr>)"
    using f by (intro j) simp_all
  from demo_dock_store k t p e f c m show ?thesis by blast
qed


end
